theory Spec2Isabelle
  imports Complex_Main
begin

section \<open>Enumerations (crew\_os/enums.py)\<close>

text \<open>Both Python enums have a member \<open>ASSIGNED\<close>; the agent's is written
  \<open>AGENT_ASSIGNED\<close> here.\<close>

datatype AgentState =
  IDLE | AGENT_ASSIGNED | RUNNING_TASK | USING_TOOL | WAITING_DELEGATION | TERMINATED

datatype TaskState =
  PENDING | READY | ASSIGNED | RUNNING | WAITING_CONTEXT | COMPLETED | FAILED

datatype CrewProcess = SEQUENTIAL | HIERARCHICAL

section \<open>Python built-ins used by the core\<close>

text \<open>A Python \<open>str\<close> is the list of its characters; the string literals of the source
  are ASCII.\<close>

text \<open>\<open>str(n)\<close> for a Python int: decimal digits, a leading minus sign when negative.\<close>

definition digit_char :: "nat \<Rightarrow> char" where
  "digit_char n = ''0123456789'' ! n"

fun str_nat :: "nat \<Rightarrow> string" where
  "str_nat n = (if n < 10 then [digit_char n] else str_nat (n div 10) @ [digit_char (n mod 10)])"

declare str_nat.simps [simp del]

definition str_int :: "int \<Rightarrow> string" where
  "str_int i = (if i < 0 then CHR ''-'' # str_nat (nat (- i)) else str_nat (nat i))"

text \<open>\<open>sep.join(parts)\<close>.\<close>

fun join_str :: "string \<Rightarrow> string list \<Rightarrow> string" where
  "join_str sep [] = []"
| "join_str sep [p] = p"
| "join_str sep (p # q # ps) = p @ sep @ join_str sep (q # ps)"

definition newline :: string where
  "newline = [CHR 0x0A]"

section \<open>Task and Agent (crew\_os/components)\<close>

record task =
  tid :: int
  description :: string
  expected_output :: string
  assigned_agent_id :: "int option"
  dependencies :: "int list"
  state :: TaskState
  t_context :: "string option"
  result :: "string option"

record agent =
  aid :: int
  role :: string
  a_goal :: string
  backstory :: string
  tools :: "string list"
  a_state :: AgentState
  current_task_id :: "int option"
  tokens :: int
  tool_calls :: int

text \<open>\<open>Task.__init__\<close>: the id comes from the class counter \<open>Task._next_tid\<close>, passed
  here as \<open>next_tid\<close>; \<open>dependencies if dependencies else []\<close> turns both \<open>None\<close> and
  the empty list into the empty list.\<close>

definition Task_init :: "int \<Rightarrow> string \<Rightarrow> string \<Rightarrow> int option \<Rightarrow> int list option \<Rightarrow> task" where
  "Task_init next_tid desc expected agent_id deps =
     \<lparr> tid = next_tid, description = desc, expected_output = expected,
       assigned_agent_id = agent_id,
       dependencies = (case deps of None \<Rightarrow> [] | Some ds \<Rightarrow> ds),
       state = PENDING, t_context = None, result = None \<rparr>"

text \<open>\<open>Agent.__init__\<close>; \<open>resource_usage\<close> is the dict with the two keys \<open>tokens\<close> and
  \<open>tool_calls\<close>, kept as two fields.\<close>

definition Agent_init :: "int \<Rightarrow> string \<Rightarrow> string \<Rightarrow> string \<Rightarrow> string list option \<Rightarrow> agent" where
  "Agent_init next_aid r g b ts =
     \<lparr> aid = next_aid, role = r, a_goal = g, backstory = b,
       tools = (case ts of None \<Rightarrow> [] | Some l \<Rightarrow> l),
       a_state = IDLE, current_task_id = None, tokens = 0, tool_calls = 0 \<rparr>"

text \<open>\<open>Agent.record_usage\<close>: non-positive amounts and unknown usage types are ignored.\<close>

definition agent_record_usage :: "string \<Rightarrow> int \<Rightarrow> agent \<Rightarrow> agent" where
  "agent_record_usage usage_type amount a =
     (if amount \<le> 0 then a
      else if usage_type = ''tokens'' then a\<lparr>tokens := tokens a + amount\<rparr>
      else if usage_type = ''tool_calls'' then a\<lparr>tool_calls := tool_calls a + amount\<rparr>
      else a)"

text \<open>\<open>Agent.assign_task\<close>.\<close>

definition assign_task :: "int \<Rightarrow> agent \<Rightarrow> agent" where
  "assign_task task_id a = a\<lparr>current_task_id := Some task_id, a_state := AGENT_ASSIGNED\<rparr>"

section \<open>The task and agent tables\<close>

text \<open>
  \<open>Crew.tasks\<close> and \<open>Crew.agents\<close> are insertion-ordered dicts built as
  \<open>{task.tid: task for task in tasks}\<close>: every object is stored under its own id, which is
  never reassigned. A table is the list of its values in iteration order; the key of an
  entry is its id field. The task manager, the scheduler and the kernel all hold references
  to the same two dicts, so one table of each kind is threaded through every operation, and
  mutating an object is replacing the entry stored under its id.
\<close>

definition get_task :: "task list \<Rightarrow> int \<Rightarrow> task option" where
  "get_task tasks k = find (\<lambda>t. tid t = k) tasks"

definition get_agent :: "agent list \<Rightarrow> int \<Rightarrow> agent option" where
  "get_agent agents k = find (\<lambda>a. aid a = k) agents"

text \<open>\<open>self.agents.get(task.assigned_agent_id)\<close>: the key may be \<open>None\<close>, which no agent
  is stored under.\<close>

definition agents_get :: "agent list \<Rightarrow> int option \<Rightarrow> agent option" where
  "agents_get agents k = (case k of None \<Rightarrow> None | Some i \<Rightarrow> get_agent agents i)"

definition modify_task :: "int \<Rightarrow> (task \<Rightarrow> task) \<Rightarrow> task list \<Rightarrow> task list" where
  "modify_task k f tasks = map (\<lambda>t. if tid t = k then f t else t) tasks"

definition modify_agent :: "int \<Rightarrow> (agent \<Rightarrow> agent) \<Rightarrow> agent list \<Rightarrow> agent list" where
  "modify_agent k f agents = map (\<lambda>a. if aid a = k then f a else a) agents"

text \<open>\<open>d[x.id] = x\<close> on an insertion-ordered dict: an existing key keeps its position
  and takes the new value, a new key is appended.\<close>

fun put_task :: "task \<Rightarrow> task list \<Rightarrow> task list" where
  "put_task t [] = [t]"
| "put_task t (u # us) = (if tid u = tid t then t # us else u # put_task t us)"

fun put_agent :: "agent \<Rightarrow> agent list \<Rightarrow> agent list" where
  "put_agent a [] = [a]"
| "put_agent a (b # bs) = (if aid b = aid a then a # bs else b # put_agent a bs)"

section \<open>TaskManager (crew\_os/core/task\_manager.py)\<close>

definition update_task_state :: "task list \<Rightarrow> int \<Rightarrow> TaskState \<Rightarrow> task list" where
  "update_task_state tasks k new_state =
     (case get_task tasks k of
        Some task \<Rightarrow>
          if state task \<noteq> new_state then modify_task k (\<lambda>t. t\<lparr>state := new_state\<rparr>) tasks
          else tasks
      | None \<Rightarrow> tasks)"

definition add_result :: "task list \<Rightarrow> int \<Rightarrow> string \<Rightarrow> task list" where
  "add_result tasks k r =
     (case get_task tasks k of
        Some task \<Rightarrow> modify_task k (\<lambda>t. t\<lparr>result := Some r\<rparr>) tasks
      | None \<Rightarrow> tasks)"

text \<open>The f-string appended to \<open>context_parts\<close> for one dependency.\<close>

definition context_part :: "int \<Rightarrow> task \<Rightarrow> string \<Rightarrow> string" where
  "context_part dep_tid dep_task r =
     ''--- Output from Task '' @ str_int dep_tid @ '' ('' @ take 30 (description dep_task)
       @ ''...) ---'' @ newline @ r @ newline @ ''--- End Task '' @ str_int dep_tid @ '' ---''"

text \<open>The \<open>for dep_tid in task.dependencies\<close> loop of \<open>build_context\<close>; \<open>None\<close> is leaving the
  loop by \<open>break\<close> with \<open>all_deps_completed = False\<close>.\<close>

fun context_loop :: "task list \<Rightarrow> int list \<Rightarrow> string list \<Rightarrow> string list option" where
  "context_loop tasks [] context_parts = Some context_parts"
| "context_loop tasks (dep_tid # rest) context_parts =
     (case get_task tasks dep_tid of
        None \<Rightarrow> None
      | Some dep_task \<Rightarrow>
          (case result dep_task of
             None \<Rightarrow> None
           | Some r \<Rightarrow>
               if state dep_task = COMPLETED
               then context_loop tasks rest (context_parts @ [context_part dep_tid dep_task r])
               else None))"

text \<open>\<open>TaskManager.build_context(task)\<close>. The argument is a Task object of the table; it
  is read for its id and dependency list (neither is ever reassigned) and mutated through
  \<open>add_context\<close>, which is an update of the entry under its id.\<close>

definition add_context :: "task list \<Rightarrow> int \<Rightarrow> string option \<Rightarrow> task list" where
  "add_context tasks k c = modify_task k (\<lambda>t. t\<lparr>t_context := c\<rparr>) tasks"

definition build_context :: "task list \<Rightarrow> task \<Rightarrow> task list \<times> string" where
  "build_context tasks task =
     (if dependencies task = [] then (add_context tasks (tid task) (Some []), [])
      else
        (case context_loop tasks (dependencies task) [] of
           Some context_parts \<Rightarrow>
             (let full_context = join_str (newline @ newline) context_parts
              in (add_context tasks (tid task) (Some full_context), full_context))
         | None \<Rightarrow> (add_context tasks (tid task) None, [])))"

text \<open>The inner loop of \<open>check_and_update_task_readiness\<close>: \<open>deps_met\<close> after it.\<close>

fun deps_met :: "task list \<Rightarrow> int list \<Rightarrow> bool" where
  "deps_met tasks [] = True"
| "deps_met tasks (dep_tid # rest) =
     (case get_task tasks dep_tid of
        None \<Rightarrow> False
      | Some dep_task \<Rightarrow> if state dep_task \<noteq> COMPLETED then False else deps_met tasks rest)"

text \<open>The outer loop, over the keys of the dict in iteration order; each task is read
  from the table as it is when the loop reaches it.\<close>

fun readiness_loop :: "int list \<Rightarrow> task list \<Rightarrow> task list" where
  "readiness_loop [] tasks = tasks"
| "readiness_loop (k # ks) tasks =
     (case get_task tasks k of
        None \<Rightarrow> readiness_loop ks tasks
      | Some task \<Rightarrow>
          readiness_loop ks
            (if state task = PENDING \<and> deps_met tasks (dependencies task)
             then update_task_state tasks (tid task) READY
             else tasks))"

definition check_and_update_task_readiness :: "task list \<Rightarrow> task list" where
  "check_and_update_task_readiness tasks = readiness_loop (map tid tasks) tasks"

section \<open>Values returned by the decision oracle\<close>

text \<open>
  \<open>_call_ollama\<close> returns \<open>json.loads\<close> of the model's answer, or \<open>None\<close> when the call or
  the parse failed. A parsed answer is any JSON value; a JSON object is the Python dict built
  from it (string keys, insertion order). The prompt that is sent only reads the state and
  the answer is not determined by the core, so the answer is an input of the work step.
\<close>

datatype json =
  JNull | JBool bool | JInt int | JFloat real | JStr string
  | JArr "json list" | JObj "(string \<times> json) list"

text \<open>Truth value of a parsed JSON value, as \<open>not tool_name\<close> tests it.\<close>

fun py_truthy :: "json \<Rightarrow> bool" where
  "py_truthy JNull = False"
| "py_truthy (JBool b) = b"
| "py_truthy (JInt i) = (i \<noteq> 0)"
| "py_truthy (JFloat x) = (x \<noteq> 0)"
| "py_truthy (JStr s) = (s \<noteq> [])"
| "py_truthy (JArr xs) = (xs \<noteq> [])"
| "py_truthy (JObj d) = (d \<noteq> [])"

text \<open>Whether a parsed JSON value can be a dict key: lists and dicts are unhashable, and
  \<open>d[key] = value\<close> raises \<open>TypeError\<close> for them.\<close>

fun py_hashable :: "json \<Rightarrow> bool" where
  "py_hashable (JArr xs) = False"
| "py_hashable (JObj d) = False"
| "py_hashable v = True"

text \<open>\<open>d.get(key)\<close> on a parsed dict: \<open>None\<close> for a missing key and for a JSON
  \<open>null\<close>, which \<open>json.loads\<close> turns into \<open>None\<close>.\<close>

definition py_get :: "(string \<times> json) list \<Rightarrow> string \<Rightarrow> json option" where
  "py_get d key = (case map_of d key of Some JNull \<Rightarrow> None | v \<Rightarrow> v)"

text \<open>The two renderings of Python the core's messages use and that are not code of the
  repository: \<open>str\<close> of a parsed JSON value, and the \<open>repr\<close> of a list of strings that an
  f-string prints for \<open>{agent_obj.tools}\<close>. They are parameters of the model.\<close>

record python =
  str_of :: "json \<Rightarrow> string"
  repr_of :: "string list \<Rightarrow> string"

text \<open>An operation either returns or lets an exception propagate. The exceptions the
  modelled code lets through are the \<open>TypeError\<close> raised when a call binds an argument
  twice and the \<open>TypeError\<close> raised when an unhashable value is used as a dict key.\<close>

datatype python_exception = TypeError

datatype 'a outcome = Returns 'a | Raises python_exception

section \<open>ResourceMonitor (crew\_os/core/resource\_monitor.py)\<close>

record resource_monitor =
  total_tokens_used :: int
  total_tool_calls :: int
  usage_log :: "(string \<times> int \<times> int option \<times> int) list"

definition ResourceMonitor_init :: resource_monitor where
  "ResourceMonitor_init = \<lparr> total_tokens_used = 0, total_tool_calls = 0, usage_log = [] \<rparr>"

definition record_usage ::
  "string \<Rightarrow> int \<Rightarrow> int option \<Rightarrow> int \<Rightarrow> resource_monitor \<Rightarrow> resource_monitor" where
  "record_usage usage_type agent_id task_id amount m =
     (if amount \<le> 0 then m
      else
        (let m1 = (if usage_type = ''tokens''
                   then m\<lparr>total_tokens_used := total_tokens_used m + amount\<rparr>
                   else if usage_type = ''tool_calls''
                   then m\<lparr>total_tool_calls := total_tool_calls m + amount\<rparr>
                   else m)
         in m1\<lparr>usage_log := usage_log m1 @ [(usage_type, agent_id, task_id, amount)]\<rparr>))"

section \<open>Tools and the registry (crew\_os/components/tool.py)\<close>

text \<open>
  What \<open>tool.execute(**kwargs)\<close> does, seen from the dispatcher's \<open>try\<close>: it returns a
  value, of which the dispatcher takes \<open>str\<close>, or raises a \<open>TypeError\<close> with a message, or
  raises another \<open>Exception\<close> with a type name and a message. The field \<open>signature\<close> is
  \<open>str(inspect.signature(tool.execute))\<close>.
\<close>

datatype tool_outcome =
  Returned string | Raised_TypeError string | Raised_Exception string string

record tool =
  name :: string
  tool_description :: string
  cost :: int
  signature :: string
  execute :: "(string \<times> json) list \<Rightarrow> tool_outcome"

definition get_tool :: "tool list \<Rightarrow> string \<Rightarrow> tool option" where
  "get_tool registry n = find (\<lambda>t. name t = n) registry"

section \<open>ToolDispatcher (crew\_os/core/tool\_dispatcher.py)\<close>

text \<open>
  \<open>execute_tool(agent, task_id, tool_name, **kwargs)\<close>. The agent object is given by its
  id; \<open>has_crew\<close> says whether the dispatcher was built with a crew, whose agent dict is then
  the table \<open>agents\<close>. \<open>tool_name\<close> is whatever the caller passes: the kernel passes the
  parsed JSON value, and a value that is not a string is equal to no entry of the allowlist.
  The result is the agent table, the ledger and the returned string.
\<close>

definition tool_name_in :: "json \<Rightarrow> string list \<Rightarrow> bool" where
  "tool_name_in tool_name allowed =
     (case tool_name of JStr s \<Rightarrow> s \<in> set allowed | _ \<Rightarrow> False)"

definition registry_get :: "tool list \<Rightarrow> json \<Rightarrow> tool option" where
  "registry_get registry tool_name =
     (case tool_name of JStr s \<Rightarrow> get_tool registry s | _ \<Rightarrow> None)"

definition execute_tool ::
  "python \<Rightarrow> tool list \<Rightarrow> bool \<Rightarrow> agent list \<Rightarrow> resource_monitor \<Rightarrow> int \<Rightarrow> int option \<Rightarrow> json
    \<Rightarrow> (string \<times> json) list \<Rightarrow> agent list \<times> resource_monitor \<times> string" where
  "execute_tool P registry has_crew agents m agent_id task_id tool_name kwargs =
     (case (if has_crew then get_agent agents agent_id else None) of
        None \<Rightarrow> (agents, m, ''Error: Agent '' @ str_int agent_id @ '' not found.'')
      | Some agent_obj \<Rightarrow>
          if \<not> tool_name_in tool_name (tools agent_obj)
          then (agents, m,
                ''Error: You are not authorized to use the tool '' @ [CHR 0x27]
                  @ str_of P tool_name @ [CHR 0x27] @ ''. Available tools: ''
                  @ repr_of P (tools agent_obj))
          else
            (case registry_get registry tool_name of
               None \<Rightarrow> (agents, m,
                         ''Error: Tool '' @ [CHR 0x27] @ str_of P tool_name @ [CHR 0x27]
                           @ '' not found in the system.'')
             | Some tool \<Rightarrow>
                 (let m1 = record_usage ''tool_calls'' agent_id task_id 1 m;
                      m2 = record_usage ''tokens'' agent_id task_id (cost tool) m1;
                      agents1 = modify_agent agent_id (agent_record_usage ''tool_calls'' 1) agents;
                      agents2 = modify_agent agent_id (agent_record_usage ''tokens'' (cost tool)) agents1
                  in (agents2, m2,
                      (case execute tool kwargs of
                         Returned r \<Rightarrow> r
                       | Raised_TypeError e \<Rightarrow>
                           ''Error: Tool '' @ [CHR 0x27] @ str_of P tool_name @ [CHR 0x27]
                             @ '' failed. Incorrect arguments provided. Expected arguments: ''
                             @ signature tool @ ''. Error: '' @ e
                       | Raised_Exception ty e \<Rightarrow>
                           ''Error executing tool '' @ [CHR 0x27] @ str_of P tool_name
                             @ [CHR 0x27] @ '': '' @ ty @ '' - '' @ e)))))"

text \<open>
  The call as the kernel writes it,
  \<open>self.tool_dispatcher.execute_tool(agent, task.tid, tool_name, **tool_args_dict)\<close>:
  the dict is unpacked into keyword arguments of a method whose parameters are
  \<open>self, agent, task_id, tool_name, **kwargs\<close>. A key of the dict that is one of the four
  parameter names binds that parameter a second time, and Python raises \<open>TypeError\<close> at
  the call, before the body runs.
\<close>

definition parameter_names :: "string list" where
  "parameter_names = [''self'', ''agent'', ''task_id'', ''tool_name'']"

definition call_execute_tool ::
  "python \<Rightarrow> tool list \<Rightarrow> bool \<Rightarrow> agent list \<Rightarrow> resource_monitor \<Rightarrow> int \<Rightarrow> int option \<Rightarrow> json
    \<Rightarrow> (string \<times> json) list \<Rightarrow> (agent list \<times> resource_monitor \<times> string) outcome" where
  "call_execute_tool P registry has_crew agents m agent_id task_id tool_name tool_args_dict =
     (if list_ex (\<lambda>key. key \<in> set parameter_names) (map fst tool_args_dict)
      then Raises TypeError
      else Returns (execute_tool P registry has_crew agents m agent_id task_id tool_name
                      tool_args_dict))"

section \<open>Crew (crew\_os/components/crew.py)\<close>

record crew =
  crew_agents :: "agent list"
  crew_tasks :: "task list"
  crew_process :: CrewProcess
  crew_task_order :: "int list"

definition Crew_init :: "agent list \<Rightarrow> task list \<Rightarrow> CrewProcess \<Rightarrow> crew" where
  "Crew_init as ts p =
     \<lparr> crew_agents = foldl (\<lambda>d a. put_agent a d) [] as,
       crew_tasks = foldl (\<lambda>d t. put_task t d) [] ts,
       crew_process = p,
       crew_task_order = map tid ts \<rparr>"

definition all_tasks_done :: "task list \<Rightarrow> bool" where
  "all_tasks_done tasks = list_all (\<lambda>t. state t = COMPLETED \<or> state t = FAILED) tasks"

text \<open>\<open>Crew.reset_states\<close>. The two class counters \<open>Agent._next_aid\<close> and
  \<open>Task._next_tid\<close> are process-wide; they are passed and returned beside the crew.\<close>

record id_counters =
  next_aid :: int
  next_tid :: int

definition reset_states :: "crew \<times> id_counters \<Rightarrow> crew \<times> id_counters" where
  "reset_states cc =
     (case cc of (c, n) \<Rightarrow>
        (c\<lparr> crew_agents :=
               map (\<lambda>a. a\<lparr>a_state := IDLE, current_task_id := None, tokens := 0, tool_calls := 0\<rparr>)
                 (crew_agents c),
            crew_tasks :=
               map (\<lambda>t. t\<lparr>state := PENDING, t_context := None, result := None\<rparr>) (crew_tasks c) \<rparr>,
         n\<lparr>next_aid := 0, next_tid := 0\<rparr>))"

section \<open>The kernel state\<close>

text \<open>
  \<open>Kernel.load_crew\<close> sets \<open>crew\<close>, \<open>resource_monitor\<close>, \<open>tool_dispatcher\<close>,
  \<open>task_manager\<close> and \<open>scheduler\<close> together and nothing unsets one of them, so one flag
  \<open>loaded\<close> says whether they are set. The scheduler's \<open>agents\<close>, the task manager's
  \<open>_tasks\<close> and the dispatcher's \<open>crew\<close> are references to the crew's two dicts: the
  fields \<open>agents\<close> and \<open>tasks\<close>. \<open>task_queue\<close> is the scheduler's deque, head first.
\<close>

record kernel =
  loaded :: bool
  agents :: "agent list"
  tasks :: "task list"
  process :: CrewProcess
  task_order :: "int list"
  task_queue :: "int list"
  monitor :: resource_monitor
  tool_registry :: "tool list"
  tick_count :: int
  running :: bool

definition Kernel_init :: "tool list \<Rightarrow> kernel" where
  "Kernel_init registry =
     \<lparr> loaded = False, agents = [], tasks = [], process = SEQUENTIAL, task_order = [],
       task_queue = [], monitor = ResourceMonitor_init, tool_registry = registry,
       tick_count = 0, running = False \<rparr>"

definition load_crew :: "kernel \<Rightarrow> crew \<Rightarrow> kernel" where
  "load_crew k c =
     k\<lparr> loaded := True, agents := crew_agents c, tasks := crew_tasks c,
        process := crew_process c, task_order := crew_task_order c,
        task_queue := (if crew_process c = SEQUENTIAL then crew_task_order c else []),
        monitor := ResourceMonitor_init, tick_count := 0, running := False \<rparr>"

section \<open>AgentScheduler (crew\_os/core/scheduler.py)\<close>

definition get_available_agents :: "agent list \<Rightarrow> agent list" where
  "get_available_agents as = filter (\<lambda>a. a_state a = IDLE) as"

text \<open>\<open>assign_task_to_agent(task, agent)\<close>, both given by their ids.\<close>

definition assign_task_to_agent :: "kernel \<Rightarrow> int \<Rightarrow> int \<Rightarrow> kernel" where
  "assign_task_to_agent k task_id agent_id =
     (let tasks1 = modify_task task_id (\<lambda>t. t\<lparr>assigned_agent_id := Some agent_id\<rparr>) (tasks k);
          tasks2 = update_task_state tasks1 task_id ASSIGNED;
          agents1 = modify_agent agent_id (assign_task task_id) (agents k)
      in k\<lparr>tasks := tasks2, agents := agents1\<rparr>)"

definition release_agent :: "agent list \<Rightarrow> int \<Rightarrow> agent list" where
  "release_agent as agent_id =
     (case get_agent as agent_id of
        None \<Rightarrow> as
      | Some a \<Rightarrow>
          if a_state a \<noteq> IDLE
          then modify_agent agent_id (\<lambda>a. a\<lparr>a_state := IDLE, current_task_id := None\<rparr>) as
          else as)"

text \<open>
  Part 1 of \<open>schedule_next\<close>: the loop over \<open>assigned_tasks\<close>, the list of the tasks that
  were ASSIGNED when the pass began. Of each listed task the loop reads the id, the
  dependency list and \<open>assigned_agent_id\<close>, none of which the loop assigns; the agent is
  read from the table as it is when the loop reaches the task.
\<close>

fun promote_loop :: "task list \<Rightarrow> agent list \<times> task list \<Rightarrow> agent list \<times> task list" where
  "promote_loop [] s = s"
| "promote_loop (task # rest) (as, ts) =
     (case agents_get as (assigned_agent_id task) of
        None \<Rightarrow> promote_loop rest (as, ts)
      | Some a \<Rightarrow>
          if current_task_id a = Some (tid task) \<and> a_state a = AGENT_ASSIGNED
          then
            (let as1 = modify_agent (aid a) (\<lambda>a. a\<lparr>a_state := RUNNING_TASK\<rparr>) as;
                 ts1 = update_task_state ts (tid task) RUNNING;
                 ts2 = fst (build_context ts1 task)
             in promote_loop rest (as1, ts2))
          else promote_loop rest (as, ts))"

definition schedule_next :: "kernel \<Rightarrow> kernel" where
  "schedule_next k =
     (if process k = SEQUENTIAL then
        (let assigned_tasks = filter (\<lambda>t. state t = ASSIGNED) (tasks k);
             k1 = (case promote_loop assigned_tasks (agents k, tasks k) of
                     (as1, ts1) \<Rightarrow> k\<lparr>agents := as1, tasks := ts1\<rparr>)
         in
           (case task_queue k1 of
              [] \<Rightarrow> k1
            | next_tid_in_queue # rest \<Rightarrow>
                (let k2 = k1\<lparr>tasks := check_and_update_task_readiness (tasks k1)\<rparr> in
                   (case get_task (tasks k2) next_tid_in_queue of
                      None \<Rightarrow> k2\<lparr>task_queue := rest\<rparr>
                    | Some task \<Rightarrow>
                        if state task = READY then
                          (case get_available_agents (agents k2) of
                             [] \<Rightarrow> k2
                           | a # _ \<Rightarrow>
                               assign_task_to_agent (k2\<lparr>task_queue := rest\<rparr>) (tid task) (aid a))
                        else if state task = PENDING then k2
                        else if state task \<in> {ASSIGNED, RUNNING, COMPLETED, FAILED}
                        then k2\<lparr>task_queue := rest\<rparr>
                        else k2))))
      else k)"

section \<open>Kernel (crew\_os/core/kernel.py)\<close>

text \<open>The accounting of one \<open>_call_ollama\<close>: 100 tokens on the ledger and on the agent.\<close>

definition call_ollama :: "kernel \<Rightarrow> int \<Rightarrow> int \<Rightarrow> kernel" where
  "call_ollama k agent_id task_id =
     k\<lparr> monitor := record_usage ''tokens'' agent_id (Some task_id) 100 (monitor k),
        agents := modify_agent agent_id (agent_record_usage ''tokens'' 100) (agents k) \<rparr>"

definition set_agent_state :: "kernel \<Rightarrow> int \<Rightarrow> AgentState \<Rightarrow> kernel" where
  "set_agent_state k agent_id s = k\<lparr>agents := modify_agent agent_id (\<lambda>a. a\<lparr>a_state := s\<rparr>) (agents k)\<rparr>"

text \<open>\<open>isinstance(llm_response, dict) and "action" in llm_response\<close>: the dict, when the
  test passes.\<close>

definition action_dict :: "json option \<Rightarrow> (string \<times> json) list option" where
  "action_dict llm_response =
     (case llm_response of
        Some (JObj d) \<Rightarrow> (if ''action'' \<in> fst ` set d then Some d else None)
      | _ \<Rightarrow> None)"

text \<open>The last part of \<open>_simulate_agent_work\<close>, from \<open>if action == "final_answer"\<close> on;
  \<open>d\<close> is the answer \<open>llm_response\<close> refers to at that point.\<close>

definition final_answer_part ::
  "python \<Rightarrow> kernel \<Rightarrow> int \<Rightarrow> int \<Rightarrow> (string \<times> json) list \<Rightarrow> kernel \<times> bool outcome" where
  "final_answer_part P k agent_id task_id d =
     (if py_get d ''action'' = Some (JStr ''final_answer'') then
        (case py_get d ''content'' of
           None \<Rightarrow> (set_agent_state k agent_id RUNNING_TASK, Returns False)
         | Some final_content \<Rightarrow>
             (let ts1 = add_result (tasks k) task_id (str_of P final_content);
                  ts2 = update_task_state ts1 task_id COMPLETED;
                  as1 = release_agent (agents k) agent_id;
                  ts3 = check_and_update_task_readiness ts2
              in (k\<lparr>tasks := ts3, agents := as1\<rparr>, Returns True)))
      else (set_agent_state k agent_id RUNNING_TASK, Returns False))"

text \<open>
  \<open>_simulate_agent_work(agent, task)\<close>, both given by their ids; \<open>r1\<close> and \<open>r2\<close> are what
  the first and the second \<open>_call_ollama\<close> return. The second is asked for only after a
  tool call. After the dispatcher has returned, \<open>current_tool_results[tool_name] = ...\<close>
  uses the tool name as a dict key and raises \<open>TypeError\<close> when it is a list or a dict.
  The result is the state when the step returns or raises, and the returned flag.
\<close>

definition simulate_agent_work ::
  "python \<Rightarrow> kernel \<Rightarrow> int \<Rightarrow> int \<Rightarrow> json option \<Rightarrow> json option \<Rightarrow> kernel \<times> bool outcome" where
  "simulate_agent_work P k agent_id task_id r1 r2 =
     (let k1 = call_ollama k agent_id task_id in
        (case action_dict r1 of
           None \<Rightarrow> (k1, Returns False)
         | Some d1 \<Rightarrow>
             if py_get d1 ''action'' = Some (JStr ''use_tool'') then
               (case (case map_of d1 ''arguments'' of None \<Rightarrow> Some (JObj []) | Some v \<Rightarrow> Some v) of
                  Some (JObj tool_args_dict) \<Rightarrow>
                    (case py_get d1 ''tool_name'' of
                       None \<Rightarrow> (k1, Returns False)
                     | Some tool_name \<Rightarrow>
                         if \<not> py_truthy tool_name then (k1, Returns False)
                         else
                           (let k2 = set_agent_state k1 agent_id USING_TOOL in
                              (case call_execute_tool P (tool_registry k2) True (agents k2)
                                      (monitor k2) agent_id (Some task_id) tool_name tool_args_dict of
                                 Raises e \<Rightarrow> (k2, Raises e)
                               | Returns (as3, m3, tool_result) \<Rightarrow>
                                   (let k3 = k2\<lparr>agents := as3, monitor := m3\<rparr> in
                                      if \<not> py_hashable tool_name then (k3, Raises TypeError)
                                      else
                                        (let k4 = call_ollama k3 agent_id task_id in
                                           (case action_dict r2 of
                                              None \<Rightarrow>
                                                (set_agent_state k4 agent_id RUNNING_TASK, Returns False)
                                            | Some d2 \<Rightarrow> final_answer_part P k4 agent_id task_id d2))))))
                | _ \<Rightarrow> (k1, Returns False))
             else final_answer_part P k1 agent_id task_id d1))"

text \<open>
  The loop of \<open>tick\<close> over \<open>running_tasks\<close>, the tasks that are RUNNING after the scheduling
  pass, by their ids. \<open>oracle\<close> gives, for a task id, what the two oracle calls of that
  task's work step return in this tick. An exception leaves the loop.
\<close>

fun work_loop :: "python \<Rightarrow> (int \<Rightarrow> json option \<times> json option) \<Rightarrow> int list \<Rightarrow> kernel \<Rightarrow> kernel \<times> unit outcome" where
  "work_loop P oracle [] k = (k, Returns ())"
| "work_loop P oracle (t # rest) k =
     (case get_task (tasks k) t of
        None \<Rightarrow> work_loop P oracle rest k
      | Some task \<Rightarrow>
          if state task \<noteq> RUNNING then work_loop P oracle rest k
          else
            (case agents_get (agents k) (assigned_agent_id task) of
               None \<Rightarrow> work_loop P oracle rest k
             | Some a \<Rightarrow>
                 if a_state a = RUNNING_TASK then
                   (case simulate_agent_work P k (aid a) (tid task) (fst (oracle t)) (snd (oracle t)) of
                      (k', Raises e) \<Rightarrow> (k', Raises e)
                    | (k', Returns task_completed) \<Rightarrow> work_loop P oracle rest k')
                 else work_loop P oracle rest k))"

definition tick :: "python \<Rightarrow> (int \<Rightarrow> json option \<times> json option) \<Rightarrow> kernel \<Rightarrow> kernel \<times> bool outcome" where
  "tick P oracle k =
     (if \<not> loaded k then (k, Returns False)
      else if \<not> running k then (k, Returns False)
      else
        (let k1 = k\<lparr>tick_count := tick_count k + 1\<rparr>;
             k2 = schedule_next k1;
             running_tasks = filter (\<lambda>t. state t = RUNNING) (tasks k2)
         in
           (case work_loop P oracle (map tid running_tasks) k2 of
              (k3, Raises e) \<Rightarrow> (k3, Raises e)
            | (k3, Returns u) \<Rightarrow>
                if all_tasks_done (tasks k3) then (k3\<lparr>running := False\<rparr>, Returns False)
                else (k3, Returns True))))"

section \<open>Notions used to state the properties\<close>

text \<open>A dependency from which a context can be built: its id is a key of the table, the
  task is COMPLETED and has a result.\<close>

definition dep_ready :: "task list \<Rightarrow> int \<Rightarrow> bool" where
  "dep_ready ts d =
     (case get_task ts d of
        None \<Rightarrow> False
      | Some dt \<Rightarrow> state dt = COMPLETED \<and> result dt \<noteq> None)"

text \<open>The delimiter of a dependency, written out: a line before the result and a line after
  it, both carrying the name \<open>n\<close> of the source task, the first also the first 30 characters
  of its description.\<close>

definition section_head :: "string \<Rightarrow> string \<Rightarrow> string" where
  "section_head n desc =
     ''--- Output from Task '' @ n @ '' ('' @ take 30 desc @ ''...) ---'' @ [CHR 0x0A]"

definition section_foot :: "string \<Rightarrow> string" where
  "section_foot n = [CHR 0x0A] @ ''--- End Task '' @ n @ '' ---''"

text \<open>Reading a decimal numeral, with an optional minus sign, back as a number: a name
  \<open>n\<close> names the task \<open>d\<close> when \<open>read_int n = Some d\<close>.\<close>

fun read_nat :: "string \<Rightarrow> nat \<Rightarrow> nat option" where
  "read_nat [] acc = Some acc"
| "read_nat (c # cs) acc =
     (if 48 \<le> (of_char c :: nat) \<and> (of_char c :: nat) \<le> 57
      then read_nat cs (10 * acc + ((of_char c :: nat) - 48))
      else None)"

definition read_int :: "string \<Rightarrow> int option" where
  "read_int s =
     (case s of
        [] \<Rightarrow> None
      | c # cs \<Rightarrow>
          if c = CHR ''-'' then (if cs = [] then None else map_option (\<lambda>n. - int n) (read_nat cs 0))
          else map_option int (read_nat s 0))"

text \<open>\<open>dep_section\<close> is the section of a ready dependency: its result between the two
  delimiter lines that carry its id. \<open>separated\<close> puts an empty line between consecutive
  sections, and \<open>context_of\<close> is the context of a dependency list: the sections in list
  order when every dependency is ready, nothing otherwise.\<close>

definition dep_section :: "task list \<Rightarrow> int \<Rightarrow> string" where
  "dep_section ts d =
     (case get_task ts d of
        None \<Rightarrow> []
      | Some dt \<Rightarrow>
          (case result dt of
             None \<Rightarrow> []
           | Some r \<Rightarrow> section_head (str_int d) (description dt) @ r @ section_foot (str_int d)))"

fun separated :: "string list \<Rightarrow> string" where
  "separated [] = []"
| "separated [p] = p"
| "separated (p # q # ps) = p @ [CHR 0x0A, CHR 0x0A] @ separated (q # ps)"

definition context_of :: "task list \<Rightarrow> int list \<Rightarrow> string option" where
  "context_of ts ds =
     (if list_all (dep_ready ts) ds then Some (separated (map (dep_section ts) ds)) else None)"

text \<open>Readiness: a PENDING task all of whose dependency ids are keys of the table and
  refer to COMPLETED tasks becomes READY.\<close>

definition dep_completed :: "task list \<Rightarrow> int \<Rightarrow> bool" where
  "dep_completed ts d =
     (case get_task ts d of None \<Rightarrow> False | Some dt \<Rightarrow> state dt = COMPLETED)"

definition becomes_ready :: "task list \<Rightarrow> task \<Rightarrow> bool" where
  "becomes_ready ts t = (state t = PENDING \<and> list_all (dep_completed ts) (dependencies t))"

definition promote_ready :: "task list \<Rightarrow> task \<Rightarrow> task" where
  "promote_ready ts t = (if becomes_ready ts t then t\<lparr>state := READY\<rparr> else t)"

text \<open>Concrete tasks, agents, tools and kernels for the closed instances.\<close>

definition ex_task :: "int \<Rightarrow> int list \<Rightarrow> TaskState \<Rightarrow> string option \<Rightarrow> task" where
  "ex_task i deps s r = (Task_init i ''work'' ''out'' None (Some deps))\<lparr>state := s, result := r\<rparr>"

definition ex_done :: "task list" where
  "ex_done = [ex_task 0 [] COMPLETED (Some ''a''), ex_task 1 [] COMPLETED (Some ''b''),
              ex_task 2 [1, 0] RUNNING None]"

definition ex_fresh :: "task list" where
  "ex_fresh = [Task_init 0 ''first'' ''out'' None None, Task_init 1 ''second'' ''out'' None (Some [0])]"

definition ex_python :: python where
  "ex_python = \<lparr> str_of = (\<lambda>v. case v of JStr s \<Rightarrow> s | _ \<Rightarrow> ''?''), repr_of = (\<lambda>l. ''[..]'') \<rparr>"

definition ex_tool :: "string \<Rightarrow> int \<Rightarrow> tool_outcome \<Rightarrow> tool" where
  "ex_tool n c out =
     \<lparr> name = n, tool_description = ''a tool'', cost = c, signature = ''(**kwargs) -> str'',
       execute = (\<lambda>kwargs. out) \<rparr>"

definition ex_agent :: "int \<Rightarrow> string list \<Rightarrow> agent" where
  "ex_agent i allowed = Agent_init i ''role'' ''goal'' ''story'' (Some allowed)"

definition ex_kernel :: kernel where
  "ex_kernel =
     load_crew (Kernel_init [ex_tool ''calculator'' 1 (Returned ''4'')])
       (Crew_init [ex_agent 0 [''calculator'']] ex_fresh SEQUENTIAL)"

text \<open>The tool a dispatch reaches: the agent is in the dispatcher's crew, the name is on
  its allowlist and in the registry.\<close>

definition dispatched_tool :: "tool list \<Rightarrow> bool \<Rightarrow> agent list \<Rightarrow> int \<Rightarrow> json \<Rightarrow> tool option" where
  "dispatched_tool registry has_crew as agent_id tool_name =
     (case (if has_crew then get_agent as agent_id else None) of
        None \<Rightarrow> None
      | Some a \<Rightarrow> if tool_name_in tool_name (tools a) then registry_get registry tool_name else None)"

text \<open>One charge for a tool of cost \<open>c\<close>: on the ledger and on an agent.\<close>

definition charged_ledger :: "int \<Rightarrow> int option \<Rightarrow> int \<Rightarrow> resource_monitor \<Rightarrow> resource_monitor" where
  "charged_ledger agent_id task_id c m =
     m\<lparr> total_tool_calls := total_tool_calls m + 1,
        total_tokens_used := total_tokens_used m + (if 0 < c then c else 0),
        usage_log := usage_log m @ [(''tool_calls'', agent_id, task_id, 1)]
                       @ (if 0 < c then [(''tokens'', agent_id, task_id, c)] else []) \<rparr>"

definition charged_agent :: "int \<Rightarrow> agent \<Rightarrow> agent" where
  "charged_agent c a =
     a\<lparr> tool_calls := tool_calls a + 1, tokens := tokens a + (if 0 < c then c else 0) \<rparr>"

text \<open>The entity state a constructor leaves: what \<open>Task.__init__\<close> and
  \<open>Agent.__init__\<close> set beside the declared fields.\<close>

definition fresh_task :: "task \<Rightarrow> bool" where
  "fresh_task t = (state t = PENDING \<and> t_context t = None \<and> result t = None)"

definition fresh_agent :: "agent \<Rightarrow> bool" where
  "fresh_agent a =
     (a_state a = IDLE \<and> current_task_id a = None \<and> tokens a = 0 \<and> tool_calls a = 0)"

definition ready_ids :: "task list \<Rightarrow> int list" where
  "ready_ids ts = map tid (filter (\<lambda>t. state t = READY) ts)"

text \<open>A fresh load of the declaration a table comes from: the same ids with the same
  dependency lists, every task as its constructor leaves it.\<close>

definition fresh_load_of :: "task list \<Rightarrow> task list \<Rightarrow> bool" where
  "fresh_load_of ts0 ts =
     (list_all fresh_task ts0 \<and> map tid ts0 = map tid ts
      \<and> map dependencies ts0 = map dependencies ts)"

definition ex_crew_after_run :: crew where
  "ex_crew_after_run =
     \<lparr> crew_agents = [(ex_agent 0 [''calculator''])\<lparr>tokens := 200, tool_calls := 1\<rparr>],
       crew_tasks = [ex_task 0 [] COMPLETED (Some ''a''),
                     (ex_task 1 [0] RUNNING None)\<lparr>assigned_agent_id := Some 0, t_context := Some ''c''\<rparr>],
       crew_process = SEQUENTIAL, crew_task_order = [0, 1] \<rparr>"



definition binds :: "(string \<times> json) list \<Rightarrow> bool" where
  "binds x = (\<not> list_ex (\<lambda>key. key \<in> set parameter_names) (map fst x))"

definition ex_kernel_running :: kernel where
  "ex_kernel_running =
     ex_kernel\<lparr> agents := [(ex_agent 0 [''calculator''])\<lparr>a_state := RUNNING_TASK, current_task_id := Some 0\<rparr>],
                tasks := [ex_task 0 [] RUNNING None\<lparr>assigned_agent_id := Some 0, t_context := Some []\<rparr>,
                          ex_task 1 [0] PENDING None],
                task_queue := [1], running := True \<rparr>"

text \<open>A task that part 1 of a scheduling pass starts: it is ASSIGNED, and the agent stored
  under its \<open>assigned_agent_id\<close> is in state ASSIGNED with this task as current task.\<close>

definition promotable :: "agent list \<Rightarrow> task \<Rightarrow> bool" where
  "promotable as t =
     (state t = ASSIGNED
      \<and> (case agents_get as (assigned_agent_id t) of
            None \<Rightarrow> False
          | Some a \<Rightarrow> current_task_id a = Some (tid t) \<and> a_state a = AGENT_ASSIGNED))"

definition promote_task :: "agent list \<Rightarrow> task list \<Rightarrow> task \<Rightarrow> task" where
  "promote_task as ts t =
     (if promotable as t
      then t\<lparr>state := RUNNING, t_context := context_of ts (dependencies t)\<rparr>
      else t)"

definition promote_agent :: "agent list \<Rightarrow> task list \<Rightarrow> agent \<Rightarrow> agent" where
  "promote_agent as ts a =
     (if list_ex (\<lambda>t. promotable as t \<and> assigned_agent_id t = Some (aid a)) ts
      then a\<lparr>a_state := RUNNING_TASK\<rparr>
      else a)"

text \<open>The state after part 1 of a pass, and after the readiness pass that part 2 runs
  when the queue is not empty.\<close>

definition promotion :: "kernel \<Rightarrow> kernel" where
  "promotion k =
     k\<lparr> agents := map (promote_agent (agents k) (tasks k)) (agents k),
        tasks := map (promote_task (agents k) (tasks k)) (tasks k) \<rparr>"

definition readiness_recomputed :: "kernel \<Rightarrow> kernel" where
  "readiness_recomputed k = k\<lparr>tasks := map (promote_ready (tasks k)) (tasks k)\<rparr>"

text \<open>Binding task \<open>h\<close> to agent \<open>a\<close>: the task is ASSIGNED with \<open>assigned_agent_id\<close> set, the
  agent is ASSIGNED with the task as its current task.\<close>

definition bind_task :: "int \<Rightarrow> int \<Rightarrow> kernel \<Rightarrow> kernel" where
  "bind_task h a k =
     k\<lparr> tasks := map (\<lambda>t. if tid t = h then t\<lparr>assigned_agent_id := Some a, state := ASSIGNED\<rparr> else t)
                   (tasks k),
        agents := map (\<lambda>x. if aid x = a then x\<lparr>current_task_id := Some h, a_state := AGENT_ASSIGNED\<rparr>
                            else x) (agents k) \<rparr>"

text \<open>
  The SEQUENTIAL scheduling pass in the words of the specification: promotion, then the
  queue head alone. A head that is READY after the readiness recompute is dequeued and bound
  to the first IDLE agent when there is one; a head that is unknown or terminal is dropped,
  and so is a head that is already ASSIGNED or RUNNING; any other head stays, and nothing
  behind the head is looked at.
\<close>

definition sequential_pass :: "kernel \<Rightarrow> kernel" where
  "sequential_pass k =
     (let k1 = promotion k in
        case task_queue k of
          [] \<Rightarrow> k1
        | h # rest \<Rightarrow>
            (let k2 = readiness_recomputed k1 in
               case get_task (tasks k2) h of
                 None \<Rightarrow> k2\<lparr>task_queue := rest\<rparr>
               | Some task \<Rightarrow>
                   if state task = READY then
                     (case find (\<lambda>a. a_state a = IDLE) (agents k2) of
                        None \<Rightarrow> k2
                      | Some a \<Rightarrow> bind_task h (aid a) (k2\<lparr>task_queue := rest\<rparr>))
                   else if state task \<in> {COMPLETED, FAILED, ASSIGNED, RUNNING}
                   then k2\<lparr>task_queue := rest\<rparr>
                   else k2))"

text \<open>The ids of the tasks that are ASSIGNED in the second table and were not in the
  first, entry by entry.\<close>

definition newly_assigned :: "task list \<Rightarrow> task list \<Rightarrow> int list" where
  "newly_assigned ts ts' =
     map (\<lambda>p. tid (fst p))
       (filter (\<lambda>p. state (fst p) \<noteq> ASSIGNED \<and> state (snd p) = ASSIGNED) (zip ts ts'))"

definition ex_kernel_sched :: kernel where
  "ex_kernel_sched =
     ex_kernel\<lparr> agents := [(ex_agent 0 [''calculator''])\<lparr>a_state := AGENT_ASSIGNED, current_task_id := Some 0\<rparr>,
                           ex_agent 1 []],
                tasks := [ex_task 0 [] ASSIGNED None\<lparr>assigned_agent_id := Some 0\<rparr>,
                          ex_task 1 [] PENDING None, ex_task 2 [] PENDING None],
                task_order := [0, 1, 2], task_queue := [1, 2] \<rparr>"

text \<open>What a final answer does to the state: the result is stored, the task is COMPLETED,
  the agent is released and readiness is recomputed.\<close>

definition complete_task :: "kernel \<Rightarrow> int \<Rightarrow> int \<Rightarrow> string \<Rightarrow> kernel" where
  "complete_task k a t r =
     k\<lparr> tasks := check_and_update_task_readiness
                   (update_task_state (add_result (tasks k) t r) t COMPLETED),
        agents := release_agent (agents k) a \<rparr>"

text \<open>The state after the dispatch of a tool, as the work step stores it.\<close>

definition after_tool :: "python \<Rightarrow> kernel \<Rightarrow> int \<Rightarrow> int \<Rightarrow> json \<Rightarrow> (string \<times> json) list \<Rightarrow> kernel" where
  "after_tool P k a t n x =
     k\<lparr> agents := fst (execute_tool P (tool_registry k) True (agents k) (monitor k) a (Some t) n x),
        monitor := fst (snd (execute_tool P (tool_registry k) True (agents k) (monitor k) a (Some t) n x)) \<rparr>"

text \<open>The dict invariant of the two tables: ids are keys.\<close>

definition wf_tables :: "kernel \<Rightarrow> bool" where
  "wf_tables k = (distinct (map tid (tasks k)) \<and> distinct (map aid (agents k)))"

definition active :: "task \<Rightarrow> bool" where
  "active t = (state t = ASSIGNED \<or> state t = RUNNING)"

text \<open>Every ASSIGNED or RUNNING task is the current task of the agent stored under its
  \<open>assigned_agent_id\<close>, and that agent is not IDLE.\<close>

definition holds_tasks :: "kernel \<Rightarrow> bool" where
  "holds_tasks k =
     list_all (\<lambda>t. active t \<longrightarrow>
                 (case agents_get (agents k) (assigned_agent_id t) of
                    None \<Rightarrow> False
                  | Some a \<Rightarrow> a_state a \<noteq> IDLE \<and> current_task_id a = Some (tid t)))
       (tasks k)"

text \<open>Agent \<open>a\<close>, when it is in the table, has \<open>t\<close> as its current task.\<close>

definition works_on :: "kernel \<Rightarrow> int \<Rightarrow> int \<Rightarrow> bool" where
  "works_on k a t =
     (case get_agent (agents k) a of None \<Rightarrow> True | Some x \<Rightarrow> current_task_id x = Some t)"

text \<open>
  The states a run reaches from a freshly loaded crew: the running flag is set or cleared,
  tools are registered, a scheduling pass runs, a work step runs on a RUNNING task and the
  agent it is bound to, that agent being in RUNNING\_TASK (the test \<open>tick\<close> makes before
  it starts a work step), an agent whose current task is neither ASSIGNED nor RUNNING is
  released (a work step releases its agent when the task is COMPLETED), a tick runs.
\<close>

inductive reachable :: "python \<Rightarrow> kernel \<Rightarrow> bool" for P :: python where
  load: "list_all fresh_agent as \<Longrightarrow> list_all fresh_task ts
         \<Longrightarrow> reachable P (load_crew k0 (Crew_init as ts p))"
| flag: "reachable P k \<Longrightarrow> reachable P (k\<lparr>running := b\<rparr>)"
| register: "reachable P k \<Longrightarrow> reachable P (k\<lparr>tool_registry := reg\<rparr>)"
| sched: "reachable P k \<Longrightarrow> reachable P (schedule_next k)"
| work: "reachable P k \<Longrightarrow> get_task (tasks k) t = Some task \<Longrightarrow> state task = RUNNING
         \<Longrightarrow> agents_get (agents k) (assigned_agent_id task) = Some a
         \<Longrightarrow> a_state a = RUNNING_TASK
         \<Longrightarrow> reachable P (fst (simulate_agent_work P k (aid a) (tid task) r1 r2))"
| release: "reachable P k \<Longrightarrow> get_agent (agents k) i = Some a
         \<Longrightarrow> list_all (\<lambda>t. current_task_id a = Some (tid t) \<longrightarrow> \<not> active t) (tasks k)
         \<Longrightarrow> reachable P (k\<lparr>agents := release_agent (agents k) i\<rparr>)"
| tick: "reachable P k \<Longrightarrow> reachable P (fst (tick P oracle k))"

text \<open>
  The operations of a run: a readiness pass, a scheduling pass, a work step (for any agent
  and task), a state update of any task, known or not, to any state other than PENDING and
  READY, a tick, and the driver setting the running flag or registering tools.
  \<open>reset_states\<close> is not among them.
\<close>

inductive core_step :: "python \<Rightarrow> kernel \<Rightarrow> kernel \<Rightarrow> bool" for P :: python where
  readiness: "core_step P k (k\<lparr>tasks := check_and_update_task_readiness (tasks k)\<rparr>)"
| sched: "core_step P k (schedule_next k)"
| work: "core_step P k (fst (simulate_agent_work P k a t r1 r2))"
| update: "s \<noteq> PENDING \<Longrightarrow> s \<noteq> READY
           \<Longrightarrow> core_step P k (k\<lparr>tasks := update_task_state (tasks k) t s\<rparr>)"
| tick: "core_step P k (fst (tick P oracle k))"
| flag: "core_step P k (k\<lparr>running := b\<rparr>)"
| register: "core_step P k (k\<lparr>tool_registry := reg\<rparr>)"

inductive run :: "python \<Rightarrow> kernel \<Rightarrow> kernel \<Rightarrow> bool" for P :: python where
  start: "run P k k"
| step: "run P k k' \<Longrightarrow> core_step P k' k'' \<Longrightarrow> run P k k''"

text \<open>A task waits while it is PENDING or READY; \<open>past_waiting k j\<close>: the task \<open>j\<close> is in
  the table and does not wait.\<close>

definition waiting :: "TaskState \<Rightarrow> bool" where
  "waiting s = (s = PENDING \<or> s = READY)"

definition past_waiting :: "kernel \<Rightarrow> int \<Rightarrow> bool" where
  "past_waiting k j =
     (case get_task (tasks k) j of None \<Rightarrow> False | Some task \<Rightarrow> \<not> waiting (state task))"

definition ex_kernel_done :: kernel where
  "ex_kernel_done =
     ex_kernel\<lparr> tasks := [ex_task 0 [] COMPLETED (Some ''a''), ex_task 1 [0] PENDING None],
                task_queue := [1] \<rparr>"

text \<open>The state after \<open>update_task_state(0, s)\<close> in that state.\<close>

definition ex_kernel_updated :: "TaskState \<Rightarrow> kernel" where
  "ex_kernel_updated s = ex_kernel_done\<lparr>tasks := update_task_state (tasks ex_kernel_done) 0 s\<rparr>"

text \<open>A crew of one agent and two tasks without dependencies, freshly loaded; and the
  state after a scheduling pass followed by a release of the agent.\<close>

definition ex_kernel_two :: kernel where
  "ex_kernel_two =
     load_crew (Kernel_init [])
       (Crew_init [ex_agent 0 []]
          [Task_init 0 ''first'' ''out'' None None, Task_init 1 ''second'' ''out'' None None]
          SEQUENTIAL)"

definition ex_kernel_released :: kernel where
  "ex_kernel_released =
     (schedule_next ex_kernel_two)\<lparr>agents := release_agent (agents (schedule_next ex_kernel_two)) 0\<rparr>"

section \<open>Context building\<close>

lemma find_map_keyed:
  assumes "\<And>x. key (g x) = key x"
  shows "find (\<lambda>x. key x = k) (map g xs) = map_option g (find (\<lambda>x. key x = k) xs)"
  using assms by (induction xs) auto

lemma get_task_modify:
  assumes "\<And>t. tid (f t) = tid t"
  shows "get_task (modify_task k f ts) j
         = map_option (\<lambda>t. if tid t = k then f t else t) (get_task ts j)"
  unfolding get_task_def modify_task_def
  by (rule find_map_keyed) (simp add: assms)

lemma get_task_tid: "get_task ts k = Some t \<Longrightarrow> tid t = k"
  unfolding get_task_def by (induction ts) (auto split: if_splits)

lemma get_task_mem: "get_task ts k = Some t \<Longrightarrow> t \<in> set ts"
  unfolding get_task_def by (induction ts) (auto split: if_splits)

lemma get_task_distinct:
  "distinct (map tid ts) \<Longrightarrow> t \<in> set ts \<Longrightarrow> get_task ts (tid t) = Some t"
  unfolding get_task_def by (induction ts) (auto simp: image_iff)

lemma context_part_eq:
  "context_part d dt r = section_head (str_int d) (description dt) @ r @ section_foot (str_int d)"
  by (simp add: context_part_def section_head_def section_foot_def newline_def)

lemma join_str_separated: "join_str (newline @ newline) ps = separated ps"
  by (induction ps rule: separated.induct) (simp_all add: newline_def)

lemma context_loop_eq:
  "context_loop ts ds acc
   = (if list_all (dep_ready ts) ds then Some (acc @ map (dep_section ts) ds) else None)"
  by (induction ds arbitrary: acc)
     (auto simp: dep_ready_def dep_section_def context_part_eq split: option.splits)

lemma read_nat_append:
  "read_nat (xs @ ys) acc = (case read_nat xs acc of None \<Rightarrow> None | Some a \<Rightarrow> read_nat ys a)"
  by (induction xs arbitrary: acc) auto

lemma of_char_digit_char: "m < 10 \<Longrightarrow> (of_char (digit_char m) :: nat) = 48 + m"
proof -
  assume "m < 10"
  then have "m = 0 \<or> m = 1 \<or> m = 2 \<or> m = 3 \<or> m = 4 \<or> m = 5 \<or> m = 6 \<or> m = 7 \<or> m = 8 \<or> m = 9"
    by arith
  then show ?thesis by (elim disjE) (simp_all add: digit_char_def)
qed

lemma read_nat_digit: "m < 10 \<Longrightarrow> read_nat [digit_char m] acc = Some (10 * acc + m)"
  by (simp add: of_char_digit_char)

lemma read_nat_str_nat: "read_nat (str_nat n) 0 = Some n"
proof (induction n rule: str_nat.induct)
  case (1 n)
  show ?case
  proof (cases "n < 10")
    case True
    then show ?thesis by (subst str_nat.simps) (simp add: read_nat_digit del: read_nat.simps)
  next
    case False
    then have "read_nat (str_nat (n div 10)) 0 = Some (n div 10)" by (rule 1)
    with False show ?thesis
      by (subst str_nat.simps) (simp add: read_nat_append read_nat_digit del: read_nat.simps)
  qed
qed

lemma str_nat_not_Nil: "str_nat n \<noteq> []"
  by (subst str_nat.simps) simp

lemma read_nat_minus: "read_nat (CHR ''-'' # cs) acc = None"
  by simp

lemma read_int_str_int: "read_int (str_int d) = Some d"
proof (cases "d < 0")
  case True
  then show ?thesis
    by (simp add: read_int_def str_int_def str_nat_not_Nil read_nat_str_nat del: read_nat.simps)
next
  case False
  obtain c cs where s: "str_nat (nat d) = c # cs"
    using str_nat_not_Nil [of "nat d"] by (cases "str_nat (nat d)") auto
  have "c \<noteq> CHR ''-''"
    using read_nat_str_nat [of "nat d"] read_nat_minus [of cs 0] unfolding s by auto
  with False s show ?thesis
    using read_nat_str_nat [of "nat d"] by (simp add: read_int_def str_int_def del: read_nat.simps)
qed

lemma get_task_add_context:
  "get_task (add_context ts k c) j
   = map_option (\<lambda>t. if tid t = k then t\<lparr>t_context := c\<rparr> else t) (get_task ts j)"
  unfolding add_context_def by (rule get_task_modify) simp

lemma build_context_eq:
  "build_context ts task =
     (add_context ts (tid task) (context_of ts (dependencies task)),
      case context_of ts (dependencies task) of None \<Rightarrow> [] | Some s \<Rightarrow> s)"
proof (cases "dependencies task = []")
  case True
  then show ?thesis by (simp add: build_context_def context_of_def)
next
  case False
  then show ?thesis
    by (simp add: build_context_def context_of_def context_loop_eq join_str_separated Let_def)
qed

text \<open>
  C1. For a task of the table, \<open>build_context\<close> stores and returns the empty string when
  the dependency list is empty; when every dependency id is the key of a COMPLETED task
  with a result, it stores and returns the sections of the dependencies in the order of the
  dependency list, an empty line between consecutive sections, where the section of a
  dependency is its result between the line \<open>--- Output from Task n (description...) ---\<close>
  and the line \<open>--- End Task n ---\<close>, and the name \<open>n\<close> in both lines is a decimal numeral
  that reads back as the dependency's id; otherwise it stores \<open>None\<close> as the context. No
  other entry of the table changes.
\<close>

theorem build_context_spec:
  assumes dist: "distinct (map tid ts)"
    and mem: "task \<in> set ts"
    and run: "build_context ts task = (ts', ctx)"
  shows "(dependencies task = [] \<longrightarrow>
            ctx = [] \<and> get_task ts' (tid task) = Some (task\<lparr>t_context := Some []\<rparr>))
       \<and> (list_all (dep_ready ts) (dependencies task) \<longrightarrow>
            ctx = separated (map (dep_section ts) (dependencies task))
            \<and> list_all (\<lambda>d. read_int (str_int d) = Some d) (dependencies task)
            \<and> get_task ts' (tid task) = Some (task\<lparr>t_context := Some ctx\<rparr>))
       \<and> (\<not> list_all (dep_ready ts) (dependencies task) \<longrightarrow>
            get_task ts' (tid task) = Some (task\<lparr>t_context := None\<rparr>))
       \<and> (\<forall>k. k \<noteq> tid task \<longrightarrow> get_task ts' k = get_task ts k)
       \<and> map tid ts' = map tid ts"
proof -
  have here: "get_task ts (tid task) = Some task"
    using dist mem by (rule get_task_distinct)
  define c where "c = context_of ts (dependencies task)"
  have t': "ts' = add_context ts (tid task) c"
    and r: "ctx = (case c of None \<Rightarrow> [] | Some s \<Rightarrow> s)"
    using run unfolding build_context_eq c_def by simp_all
  have at: "get_task ts' (tid task) = Some (task\<lparr>t_context := c\<rparr>)"
    by (simp add: t' get_task_add_context here)
  have other: "\<forall>k. k \<noteq> tid task \<longrightarrow> get_task ts' k = get_task ts k"
  proof (intro allI impI)
    fix k assume "k \<noteq> tid task"
    then show "get_task ts' k = get_task ts k"
      by (cases "get_task ts k") (auto simp: t' get_task_add_context dest: get_task_tid)
  qed
  have keys: "map tid ts' = map tid ts"
    by (simp add: t' add_context_def modify_task_def comp_def)
  have names: "list_all (\<lambda>d. read_int (str_int d) = Some d) (dependencies task)"
    by (simp add: list_all_iff read_int_str_int)
  show ?thesis using at other keys r names by (auto simp: c_def context_of_def)
qed

section \<open>The readiness pass\<close>

lemma deps_met_eq: "deps_met ts ds = list_all (dep_completed ts) ds"
  by (induction ds) (auto simp: dep_completed_def split: option.splits)

lemma get_task_map:
  assumes "\<And>t. tid (g t) = tid t"
  shows "get_task (map g ts) j = map_option g (get_task ts j)"
  unfolding get_task_def by (rule find_map_keyed) (simp add: assms)

lemma get_task_None: "get_task ts k = None \<longleftrightarrow> k \<notin> tid ` set ts"
  unfolding get_task_def by (auto simp: find_None_iff)

lemma get_task_unique:
  "distinct (map tid ts) \<Longrightarrow> get_task ts k = Some t \<Longrightarrow> u \<in> set ts \<Longrightarrow> tid u = k \<Longrightarrow> u = t"
  using get_task_distinct [of ts u] by simp

lemma update_task_state_map:
  assumes "distinct (map tid ts)"
  shows "update_task_state ts k s = map (\<lambda>t. if tid t = k then t\<lparr>state := s\<rparr> else t) ts"
proof (cases "get_task ts k")
  case None
  then have "\<And>t. t \<in> set ts \<Longrightarrow> tid t \<noteq> k" by (auto simp: get_task_None)
  then have "map (\<lambda>t. if tid t = k then t\<lparr>state := s\<rparr> else t) ts = map (\<lambda>t. t) ts"
    by (intro map_cong) auto
  with None show ?thesis by (simp add: update_task_state_def)
next
  case (Some task)
  show ?thesis
  proof (cases "state task = s")
    case False
    with Some show ?thesis by (simp add: update_task_state_def modify_task_def)
  next
    case True
    have "\<And>t. t \<in> set ts \<Longrightarrow> (if tid t = k then t\<lparr>state := s\<rparr> else t) = t"
      using get_task_unique [OF assms Some] True by auto
    then have "map (\<lambda>t. if tid t = k then t\<lparr>state := s\<rparr> else t) ts = map (\<lambda>t. t) ts"
      by (intro map_cong) auto
    with Some True show ?thesis by (simp add: update_task_state_def)
  qed
qed

lemma dep_completed_map:
  assumes "\<And>t. tid (g t) = tid t" "\<And>t. state (g t) = COMPLETED \<longleftrightarrow> state t = COMPLETED"
  shows "dep_completed (map g ts) d = dep_completed ts d"
  by (cases "get_task ts d") (simp_all add: dep_completed_def get_task_map assms)

lemma becomes_ready_map:
  assumes "\<And>t. tid (g t) = tid t" "\<And>t. state (g t) = COMPLETED \<longleftrightarrow> state t = COMPLETED"
  shows "becomes_ready (map g ts) t = becomes_ready ts t"
proof -
  have "dep_completed (map g ts) = dep_completed ts"
    using assms by (intro ext dep_completed_map)
  then show ?thesis by (simp add: becomes_ready_def)
qed

lemma readiness_loop_map:
  assumes "distinct (map tid cur)" "distinct ks" "set ks \<subseteq> tid ` set cur"
  shows "readiness_loop ks cur = map (\<lambda>t. if tid t \<in> set ks then promote_ready cur t else t) cur"
  using assms
proof (induction ks arbitrary: cur)
  case Nil
  then show ?case by simp
next
  case (Cons k ks)
  from Cons.prems(3) obtain task where task: "get_task cur k = Some task"
    by (cases "get_task cur k") (auto simp: get_task_None)
  have tk: "tid task = k" using task by (rule get_task_tid)
  define g where "g = (\<lambda>t. if tid t = k then promote_ready cur t else t)"
  define cur' where "cur' = map g cur"
  have g_tid: "\<And>t. tid (g t) = tid t" by (simp add: g_def promote_ready_def)
  have g_comp: "\<And>t. state (g t) = COMPLETED \<longleftrightarrow> state t = COMPLETED"
    by (auto simp: g_def promote_ready_def becomes_ready_def)
  have step: "(if state task = PENDING \<and> deps_met cur (dependencies task)
               then update_task_state cur (tid task) READY else cur) = cur'"
  proof (cases "becomes_ready cur task")
    case True
    have "\<And>t. t \<in> set cur \<Longrightarrow> (if tid t = k then t\<lparr>state := READY\<rparr> else t) = g t"
      using get_task_unique [OF Cons.prems(1) task] True by (auto simp: g_def promote_ready_def)
    then have "map (\<lambda>t. if tid t = k then t\<lparr>state := READY\<rparr> else t) cur = map g cur"
      by (intro map_cong) auto
    with True show ?thesis
      by (simp add: becomes_ready_def deps_met_eq update_task_state_map [OF Cons.prems(1)] tk cur'_def)
  next
    case False
    have "\<And>t. t \<in> set cur \<Longrightarrow> g t = t"
      using get_task_unique [OF Cons.prems(1) task] False by (auto simp: g_def promote_ready_def)
    then have "map g cur = map (\<lambda>t. t) cur" by (intro map_cong) auto
    with False show ?thesis by (auto simp: becomes_ready_def deps_met_eq cur'_def)
  qed
  have d': "distinct (map tid cur')" using Cons.prems(1) by (simp add: cur'_def comp_def g_tid)
  have s': "set ks \<subseteq> tid ` set cur'" using Cons.prems(3) by (auto simp: cur'_def g_tid image_image)
  have dk: "distinct ks" "k \<notin> set ks" using Cons.prems(2) by auto
  have IH: "readiness_loop ks cur' = map (\<lambda>t. if tid t \<in> set ks then promote_ready cur' t else t) cur'"
    using Cons.IH [OF d' dk(1) s'] .
  have br: "\<And>t. becomes_ready cur' t = becomes_ready cur t"
    unfolding cur'_def using g_tid g_comp by (rule becomes_ready_map)
  have "readiness_loop (k # ks) cur = readiness_loop ks cur'"
    using task step by simp
  also have "\<dots> = map (\<lambda>t. if tid t \<in> set ks then promote_ready cur' t else t) cur'" by (rule IH)
  also have "\<dots> = map (\<lambda>t. if tid t \<in> set (k # ks) then promote_ready cur t else t) cur"
    unfolding cur'_def map_map
  proof (intro map_cong refl)
    fix t assume "t \<in> set cur"
    show "((\<lambda>t. if tid t \<in> set ks then promote_ready (map g cur) t else t) \<circ> g) t
          = (if tid t \<in> set (k # ks) then promote_ready cur t else t)"
      using dk(2) br by (auto simp: g_def promote_ready_def cur'_def)
  qed
  finally show ?case .
qed

lemma readiness_map:
  assumes "distinct (map tid ts)"
  shows "check_and_update_task_readiness ts = map (promote_ready ts) ts"
proof -
  have "readiness_loop (map tid ts) ts
        = map (\<lambda>t. if tid t \<in> set (map tid ts) then promote_ready ts t else t) ts"
    using assms by (intro readiness_loop_map) auto
  also have "\<dots> = map (promote_ready ts) ts" by (intro map_cong) auto
  finally show ?thesis by (simp add: check_and_update_task_readiness_def)
qed

text \<open>
  C2. The readiness pass turns into READY exactly the PENDING tasks all of whose dependency
  ids are keys of the table and refer to COMPLETED tasks, and changes nothing else: the
  table after the pass is the table before it with \<open>promote_ready\<close> applied to every
  entry, the test being made on the table before the pass. In particular a PENDING task
  with an empty dependency list is READY after the pass.
\<close>

theorem readiness_spec:
  assumes "distinct (map tid ts)"
  shows "check_and_update_task_readiness ts = map (promote_ready ts) ts
       \<and> (\<forall>t \<in> set ts. state t = PENDING \<and> dependencies t = [] \<longrightarrow>
             get_task (check_and_update_task_readiness ts) (tid t) = Some (t\<lparr>state := READY\<rparr>))"
proof -
  have eq: "check_and_update_task_readiness ts = map (promote_ready ts) ts"
    using assms by (rule readiness_map)
  have "get_task (map (promote_ready ts) ts) (tid t) = Some (t\<lparr>state := READY\<rparr>)"
    if "t \<in> set ts" "state t = PENDING" "dependencies t = []" for t
  proof -
    have "get_task (map (promote_ready ts) ts) (tid t) = map_option (promote_ready ts) (get_task ts (tid t))"
      by (rule get_task_map) (simp add: promote_ready_def)
    also have "\<dots> = Some (promote_ready ts t)"
      using get_task_distinct [OF assms that(1)] by simp
    finally show ?thesis using that by (simp add: promote_ready_def becomes_ready_def)
  qed
  with eq show ?thesis by simp
qed

theorem readiness_spec_witness:
  "distinct (map tid ex_fresh)
   \<and> map state (check_and_update_task_readiness ex_fresh) = [READY, PENDING]
   \<and> map state (check_and_update_task_readiness (ex_done @ [ex_task 3 [0, 1] PENDING None]))
       = [COMPLETED, COMPLETED, RUNNING, READY]"
proof -
  have d1: "distinct (map tid ex_fresh)" by (simp add: ex_fresh_def Task_init_def)
  have d2: "distinct (map tid (ex_done @ [ex_task 3 [0, 1] PENDING None]))"
    by (simp add: ex_done_def ex_task_def Task_init_def)
  show ?thesis
    using d1 readiness_spec [OF d1] readiness_spec [OF d2]
    by (simp add: ex_fresh_def ex_done_def ex_task_def Task_init_def promote_ready_def
          becomes_ready_def dep_completed_def get_task_def)
qed

theorem build_context_spec_witness:
  "distinct (map tid ex_done) \<and> ex_task 2 [1, 0] RUNNING None \<in> set ex_done
   \<and> list_all (dep_ready ex_done) [1, 0]
   \<and> snd (build_context ex_done (ex_task 2 [1, 0] RUNNING None))
       = ''--- Output from Task 1 (work...) ---'' @ [CHR 0x0A] @ ''b'' @ [CHR 0x0A]
         @ ''--- End Task 1 ---'' @ [CHR 0x0A, CHR 0x0A]
         @ ''--- Output from Task 0 (work...) ---'' @ [CHR 0x0A] @ ''a'' @ [CHR 0x0A]
         @ ''--- End Task 0 ---''
   \<and> map t_context (fst (build_context ex_done (ex_task 2 [1, 0] RUNNING None)))
       = [None, None, Some (snd (build_context ex_done (ex_task 2 [1, 0] RUNNING None)))]
   \<and> read_int ''1'' = Some 1 \<and> read_int ''0'' = Some 0"
proof -
  let ?t = "ex_task 2 [1, 0] RUNNING None"
  have d: "distinct (map tid ex_done)" by (simp add: ex_done_def ex_task_def Task_init_def)
  have m: "?t \<in> set ex_done" by (simp add: ex_done_def)
  have r: "list_all (dep_ready ex_done) [1, 0]"
    by (simp add: dep_ready_def ex_done_def ex_task_def Task_init_def get_task_def)
  have deps: "dependencies ?t = [1, 0]" by (simp add: ex_task_def Task_init_def)
  have tid2: "tid ?t = 2" by (simp add: ex_task_def Task_init_def)
  have s1: "str_int 1 = ''1''" and s0: "str_int 0 = ''0''"
    by (simp_all add: str_int_def str_nat.simps [of "Suc 0"] str_nat.simps [of 0] digit_char_def)
  have sec: "dep_section ex_done 1
             = ''--- Output from Task 1 (work...) ---'' @ [CHR 0x0A] @ ''b'' @ [CHR 0x0A]
               @ ''--- End Task 1 ---''"
    "dep_section ex_done 0
             = ''--- Output from Task 0 (work...) ---'' @ [CHR 0x0A] @ ''a'' @ [CHR 0x0A]
               @ ''--- End Task 0 ---''"
    by (simp_all add: dep_section_def ex_done_def ex_task_def Task_init_def get_task_def
          section_head_def section_foot_def s1 s0)
  from build_context_spec [OF d m prod.collapse [symmetric]] r
  have spec: "snd (build_context ex_done ?t) = separated (map (dep_section ex_done) [1, 0])"
    "list_all (\<lambda>d. read_int (str_int d) = Some d) [1, 0]"
    "get_task (fst (build_context ex_done ?t)) 2
       = Some (?t\<lparr>t_context := Some (snd (build_context ex_done ?t))\<rparr>)"
    "\<forall>k. k \<noteq> 2 \<longrightarrow> get_task (fst (build_context ex_done ?t)) k = get_task ex_done k"
    "map tid (fst (build_context ex_done ?t)) = map tid ex_done"
    by (simp_all add: deps tid2)
  have c: "snd (build_context ex_done ?t)
       = ''--- Output from Task 1 (work...) ---'' @ [CHR 0x0A] @ ''b'' @ [CHR 0x0A]
         @ ''--- End Task 1 ---'' @ [CHR 0x0A, CHR 0x0A]
         @ ''--- Output from Task 0 (work...) ---'' @ [CHR 0x0A] @ ''a'' @ [CHR 0x0A]
         @ ''--- End Task 0 ---''"
    unfolding spec(1) by (simp add: sec)
  have n: "read_int ''1'' = Some 1" "read_int ''0'' = Some 0"
    using spec(2) by (simp_all add: s1 s0)
  have "fst (build_context ex_done ?t) = add_context ex_done 2 (context_of ex_done [1, 0])"
    by (simp add: build_context_eq deps tid2)
  moreover have "context_of ex_done [1, 0] = Some (snd (build_context ex_done ?t))"
    using r by (simp add: context_of_def spec(1))
  ultimately have tc: "map t_context (fst (build_context ex_done ?t))
       = [None, None, Some (snd (build_context ex_done ?t))]"
    by (simp add: add_context_def modify_task_def ex_done_def ex_task_def Task_init_def)
  from d m r c tc n show ?thesis by blast
qed

section \<open>The tick gate\<close>

text \<open>
  C10. With the running flag unset, \<open>tick\<close> returns \<open>False\<close> and the kernel state,
  which holds the tasks, the agents, the scheduler's queue, the ledger and the tick
  counter, is the state it was called in; the oracle is not consulted.
\<close>

theorem tick_not_running:
  assumes "\<not> running k"
  shows "tick P oracle k = (k, Returns False)"
  using assms by (simp add: tick_def)

theorem tick_not_running_witness:
  "\<not> running ex_kernel \<and> loaded ex_kernel \<and> \<not> all_tasks_done (tasks ex_kernel)
   \<and> tick ex_python (\<lambda>t. (None, None)) ex_kernel = (ex_kernel, Returns False)"
proof -
  have r: "\<not> running ex_kernel" by (simp add: ex_kernel_def load_crew_def)
  have l: "loaded ex_kernel" by (simp add: ex_kernel_def load_crew_def)
  have n: "\<not> all_tasks_done (tasks ex_kernel)"
    by (simp add: ex_kernel_def load_crew_def Crew_init_def ex_fresh_def Task_init_def
          all_tasks_done_def)
  show ?thesis using r l n tick_not_running [OF r, of ex_python "\<lambda>t. (None, None)"] by simp
qed

section \<open>Tool dispatch\<close>

lemma modify_agent_comp:
  assumes "\<And>a. aid (g a) = aid a"
  shows "modify_agent i f (modify_agent i g as) = modify_agent i (f \<circ> g) as"
  by (simp add: modify_agent_def assms)

lemma record_usage_twice:
  "record_usage ''tokens'' agent_id task_id c (record_usage ''tool_calls'' agent_id task_id 1 m)
   = charged_ledger agent_id task_id c m"
  by (simp add: record_usage_def charged_ledger_def Let_def)

lemma agent_record_usage_twice:
  "agent_record_usage ''tokens'' c (agent_record_usage ''tool_calls'' 1 a) = charged_agent c a"
  by (simp add: agent_record_usage_def charged_agent_def)

lemma aid_agent_record_usage: "aid (agent_record_usage u n a) = aid a"
  by (simp add: agent_record_usage_def)

lemma modify_agent_charged:
  "modify_agent i (agent_record_usage ''tokens'' c)
     (modify_agent i (agent_record_usage ''tool_calls'' 1) as)
   = modify_agent i (charged_agent c) as"
  by (simp add: modify_agent_def aid_agent_record_usage agent_record_usage_twice)

lemma execute_tool_state:
  "fst (execute_tool P registry has_crew as m agent_id task_id tool_name kwargs)
     = (case dispatched_tool registry has_crew as agent_id tool_name of
          None \<Rightarrow> as | Some tool \<Rightarrow> modify_agent agent_id (charged_agent (cost tool)) as)"
  "fst (snd (execute_tool P registry has_crew as m agent_id task_id tool_name kwargs))
     = (case dispatched_tool registry has_crew as agent_id tool_name of
          None \<Rightarrow> m | Some tool \<Rightarrow> charged_ledger agent_id task_id (cost tool) m)"
  by (auto simp: execute_tool_def dispatched_tool_def Let_def record_usage_twice
        modify_agent_charged split: option.splits)

text \<open>
  C4. A dispatch charges only when it reaches a tool, that is after the
  authorization and the registry lookup have passed; it then charges once, one tool call
  and, when the tool's cost is positive, that many tokens, on the ledger and on the calling
  agent, and the charge is the same whatever the tool's execution returns or raises. A
  dispatch that reaches no tool charges nothing.
\<close>

theorem execute_tool_charge:
  assumes "execute_tool P registry has_crew as m agent_id task_id tool_name kwargs = (as', m', r)"
  shows "(case dispatched_tool registry has_crew as agent_id tool_name of
            None \<Rightarrow> as' = as \<and> m' = m
          | Some tool \<Rightarrow>
              as' = modify_agent agent_id (charged_agent (cost tool)) as
              \<and> m' = charged_ledger agent_id task_id (cost tool) m)"
  using execute_tool_state [of P registry has_crew as m agent_id task_id tool_name kwargs] assms
  by (simp split: option.splits)

theorem execute_tool_charge_witness:
  "dispatched_tool [ex_tool ''web_search'' 5 (Raised_Exception ''ValueError'' ''boom'')] True
       [ex_agent 0 [''web_search'']] 0 (JStr ''web_search'')
     = Some (ex_tool ''web_search'' 5 (Raised_Exception ''ValueError'' ''boom''))
   \<and> fst (snd (execute_tool ex_python [ex_tool ''web_search'' 5 (Raised_Exception ''ValueError'' ''boom'')]
                 True [ex_agent 0 [''web_search'']] ResourceMonitor_init 0 (Some 7) (JStr ''web_search'') []))
     = \<lparr> total_tokens_used = 5, total_tool_calls = 1,
         usage_log = [(''tool_calls'', 0, Some 7, 1), (''tokens'', 0, Some 7, 5)] \<rparr>
   \<and> map tool_calls (fst (execute_tool ex_python [ex_tool ''web_search'' 5 (Raised_Exception ''ValueError'' ''boom'')]
                 True [ex_agent 0 [''web_search'']] ResourceMonitor_init 0 (Some 7) (JStr ''web_search'') [])) = [1]
   \<and> map tokens (fst (execute_tool ex_python [ex_tool ''web_search'' 5 (Raised_Exception ''ValueError'' ''boom'')]
                 True [ex_agent 0 [''web_search'']] ResourceMonitor_init 0 (Some 7) (JStr ''web_search'') [])) = [5]"
proof -
  let ?reg = "[ex_tool ''web_search'' 5 (Raised_Exception ''ValueError'' ''boom'')]"
  let ?x = "execute_tool ex_python ?reg True [ex_agent 0 [''web_search'']] ResourceMonitor_init 0
              (Some 7) (JStr ''web_search'') []"
  have d: "dispatched_tool ?reg True [ex_agent 0 [''web_search'']] 0 (JStr ''web_search'')
           = Some (ex_tool ''web_search'' 5 (Raised_Exception ''ValueError'' ''boom''))"
    by (simp add: dispatched_tool_def get_agent_def ex_agent_def Agent_init_def tool_name_in_def
          registry_get_def get_tool_def ex_tool_def)
  have e: "?x = (fst ?x, fst (snd ?x), snd (snd ?x))" by simp
  have c: "cost (ex_tool ''web_search'' 5 (Raised_Exception ''ValueError'' ''boom'')) = 5"
    by (simp add: ex_tool_def)
  show ?thesis
    using execute_tool_charge [OF e] d
    by (simp add: c charged_ledger_def charged_agent_def modify_agent_def ResourceMonitor_init_def
          ex_agent_def Agent_init_def)
qed

theorem execute_tool_charge_counterexample:
  "total_tool_calls (fst (snd (execute_tool ex_python [ex_tool ''calculator'' 1 (Returned ''4'')] True
       [ex_agent 0 []] ResourceMonitor_init 0 (Some 0) (JStr ''calculator'') []))) = 0
   \<and> map tool_calls (fst (execute_tool ex_python [ex_tool ''calculator'' 1 (Returned ''4'')] True
       [ex_agent 0 []] ResourceMonitor_init 0 (Some 0) (JStr ''calculator'') [])) = [0]
   \<and> total_tokens_used (fst (snd (execute_tool ex_python [ex_tool ''refund'' (- 2) (Returned ''ok'')] True
       [ex_agent 0 [''refund'']] ResourceMonitor_init 0 (Some 0) (JStr ''refund'') []))) = 0
   \<and> map tokens (fst (execute_tool ex_python [ex_tool ''refund'' (- 2) (Returned ''ok'')] True
       [ex_agent 0 [''refund'']] ResourceMonitor_init 0 (Some 0) (JStr ''refund'') [])) = [0]"
  by (simp add: execute_tool_def get_agent_def ex_agent_def Agent_init_def tool_name_in_def
        registry_get_def get_tool_def ex_tool_def ResourceMonitor_init_def record_usage_def
        modify_agent_def agent_record_usage_def)

lemma call_execute_tool_bound:
  assumes "binds kwargs"
  shows "call_execute_tool P registry has_crew as m agent_id task_id tool_name kwargs
         = Returns (execute_tool P registry has_crew as m agent_id task_id tool_name kwargs)"
  using assms by (simp add: call_execute_tool_def binds_def)

text \<open>
  C5. The dispatch \<open>execute_tool(agent, 0, "calculator", **{"tool_name": "x"})\<close>, by an
  agent allowed to use the registered tool \<open>calculator\<close>, raises \<open>TypeError\<close>; so does the
  work step whose oracle answers with the action \<open>use_tool\<close>, the tool \<open>calculator\<close> and
  the arguments \<open>{"tool_name": "x"}\<close>.
\<close>

theorem execute_tool_raises:
  "call_execute_tool ex_python [ex_tool ''calculator'' 1 (Returned ''4'')] True
       [ex_agent 0 [''calculator'']] ResourceMonitor_init 0 (Some 0) (JStr ''calculator'')
       [(''tool_name'', JStr ''x'')] = Raises TypeError
   \<and> snd (simulate_agent_work ex_python ex_kernel 0 0
            (Some (JObj [(''action'', JStr ''use_tool''), (''tool_name'', JStr ''calculator''),
                         (''arguments'', JObj [(''tool_name'', JStr ''x'')])])) None)
       = Raises TypeError"
  by (simp add: call_execute_tool_def parameter_names_def simulate_agent_work_def action_dict_def
        py_get_def Let_def)

section \<open>Reset\<close>

lemma dep_completed_pending:
  assumes "list_all (\<lambda>t. state t = PENDING) ts"
  shows "\<not> dep_completed ts d"
proof (cases "get_task ts d")
  case None
  then show ?thesis by (simp add: dep_completed_def)
next
  case (Some dt)
  then have "dt \<in> set ts" by (rule get_task_mem)
  with assms have "state dt = PENDING" by (simp add: list_all_iff)
  with Some show ?thesis by (simp add: dep_completed_def)
qed

lemma promote_ready_pending:
  assumes "list_all (\<lambda>t. state t = PENDING) ts" "state t = PENDING"
  shows "promote_ready ts t = (if dependencies t = [] then t\<lparr>state := READY\<rparr> else t)"
proof -
  have "list_all (dep_completed ts) ds \<longleftrightarrow> ds = []" for ds
    using dep_completed_pending [OF assms(1)] by (cases ds) auto
  then show ?thesis using assms(2) by (simp add: promote_ready_def becomes_ready_def)
qed

lemma ready_ids_map_pending:
  assumes "list_all (\<lambda>t. state t = PENDING) us"
    and "\<And>t. t \<in> set us \<Longrightarrow> f t = (if dependencies t = [] then t\<lparr>state := READY\<rparr> else t)"
  shows "ready_ids (map f us)
         = map fst (filter (\<lambda>p. snd p = []) (zip (map tid us) (map dependencies us)))"
  using assms by (induction us) (auto simp: ready_ids_def)

lemma ready_ids_all_pending:
  assumes "distinct (map tid ts)" "list_all (\<lambda>t. state t = PENDING) ts"
  shows "ready_ids (check_and_update_task_readiness ts)
         = map fst (filter (\<lambda>p. snd p = []) (zip (map tid ts) (map dependencies ts)))"
proof -
  have "\<And>t. t \<in> set ts \<Longrightarrow>
          promote_ready ts t = (if dependencies t = [] then t\<lparr>state := READY\<rparr> else t)"
    using assms(2) by (intro promote_ready_pending) (auto simp: list_all_iff)
  with assms(2) have "ready_ids (map (promote_ready ts) ts)
      = map fst (filter (\<lambda>p. snd p = []) (zip (map tid ts) (map dependencies ts)))"
    by (rule ready_ids_map_pending)
  then show ?thesis by (simp add: readiness_map [OF assms(1)])
qed

text \<open>
  C9. \<open>reset_states\<close> leaves every task PENDING without context or result and every agent
  IDLE without a current task and with both usage counters at zero; the ids, descriptions,
  expected outputs and dependency lists of the tasks, the ids, roles, goals, backstories
  and tool allowlists of the agents, their order, the policy and the declared task order
  are what they were. A readiness pass on the reset table makes READY the same task ids,
  in the same order, as a readiness pass on any fresh load of the same declaration.
\<close>

theorem reset_states_spec:
  assumes "reset_states (c, n) = (c', n')" and "distinct (map tid (crew_tasks c))"
  shows "list_all fresh_task (crew_tasks c') \<and> list_all fresh_agent (crew_agents c')
       \<and> map tid (crew_tasks c') = map tid (crew_tasks c)
       \<and> map description (crew_tasks c') = map description (crew_tasks c)
       \<and> map expected_output (crew_tasks c') = map expected_output (crew_tasks c)
       \<and> map dependencies (crew_tasks c') = map dependencies (crew_tasks c)
       \<and> map aid (crew_agents c') = map aid (crew_agents c)
       \<and> map role (crew_agents c') = map role (crew_agents c)
       \<and> map a_goal (crew_agents c') = map a_goal (crew_agents c)
       \<and> map backstory (crew_agents c') = map backstory (crew_agents c)
       \<and> map tools (crew_agents c') = map tools (crew_agents c)
       \<and> crew_process c' = crew_process c \<and> crew_task_order c' = crew_task_order c
       \<and> (\<forall>ts0. fresh_load_of ts0 (crew_tasks c) \<longrightarrow>
             ready_ids (check_and_update_task_readiness (crew_tasks c'))
             = ready_ids (check_and_update_task_readiness ts0))"
proof -
  let ?r = "\<lambda>t. t\<lparr>state := PENDING, t_context := None, result := None\<rparr>"
  let ?q = "\<lambda>a. a\<lparr>a_state := IDLE, current_task_id := None, tokens := 0, tool_calls := 0\<rparr>"
  have ct: "crew_tasks c' = map ?r (crew_tasks c)"
    and ca: "crew_agents c' = map ?q (crew_agents c)"
    and cp: "crew_process c' = crew_process c" "crew_task_order c' = crew_task_order c"
    using assms(1) by (auto simp: reset_states_def)
  have ft: "list_all fresh_task (crew_tasks c')" by (simp add: ct list_all_iff fresh_task_def)
  have fa: "list_all fresh_agent (crew_agents c')" by (simp add: ca list_all_iff fresh_agent_def)
  have keep_t: "map tid (crew_tasks c') = map tid (crew_tasks c)"
    "map description (crew_tasks c') = map description (crew_tasks c)"
    "map expected_output (crew_tasks c') = map expected_output (crew_tasks c)"
    "map dependencies (crew_tasks c') = map dependencies (crew_tasks c)"
    by (simp_all add: ct comp_def)
  have keep_a: "map aid (crew_agents c') = map aid (crew_agents c)"
    "map role (crew_agents c') = map role (crew_agents c)"
    "map a_goal (crew_agents c') = map a_goal (crew_agents c)"
    "map backstory (crew_agents c') = map backstory (crew_agents c)"
    "map tools (crew_agents c') = map tools (crew_agents c)"
    by (simp_all add: ca comp_def)
  have pend: "list_all (\<lambda>t. state t = PENDING) (crew_tasks c')" by (simp add: ct list_all_iff)
  have dist: "distinct (map tid (crew_tasks c'))" using assms(2) keep_t(1) by simp
  have rdy: "ready_ids (check_and_update_task_readiness (crew_tasks c'))
             = ready_ids (check_and_update_task_readiness ts0)"
    if "fresh_load_of ts0 (crew_tasks c)" for ts0
  proof -
    from that have p0: "list_all (\<lambda>t. state t = PENDING) ts0"
      and k0: "map tid ts0 = map tid (crew_tasks c)"
      and d0: "map dependencies ts0 = map dependencies (crew_tasks c)"
      by (auto simp: fresh_load_of_def fresh_task_def list_all_iff)
    have dist0: "distinct (map tid ts0)" using assms(2) k0 by simp
    show ?thesis
      by (simp add: ready_ids_all_pending [OF dist pend] ready_ids_all_pending [OF dist0 p0]
            keep_t k0 d0)
  qed
  show ?thesis using ft fa keep_t keep_a cp rdy by blast
qed

theorem reset_states_spec_witness:
  "distinct (map tid (crew_tasks ex_crew_after_run))
   \<and> fresh_load_of ex_fresh (crew_tasks ex_crew_after_run)
   \<and> map state (crew_tasks (fst (reset_states (ex_crew_after_run, \<lparr>next_aid = 1, next_tid = 2\<rparr>))))
       = [PENDING, PENDING]
   \<and> map tokens (crew_agents (fst (reset_states (ex_crew_after_run, \<lparr>next_aid = 1, next_tid = 2\<rparr>))))
       = [0]
   \<and> ready_ids (check_and_update_task_readiness
        (crew_tasks (fst (reset_states (ex_crew_after_run, \<lparr>next_aid = 1, next_tid = 2\<rparr>)))))
       = ready_ids (check_and_update_task_readiness ex_fresh)"
proof -
  let ?x = "reset_states (ex_crew_after_run, \<lparr>next_aid = 1, next_tid = 2\<rparr>)"
  have d: "distinct (map tid (crew_tasks ex_crew_after_run))"
    by (simp add: ex_crew_after_run_def ex_task_def Task_init_def)
  have f: "fresh_load_of ex_fresh (crew_tasks ex_crew_after_run)"
    by (simp add: fresh_load_of_def fresh_task_def ex_fresh_def ex_crew_after_run_def ex_task_def
          Task_init_def)
  have e: "?x = (fst ?x, snd ?x)" by simp
  have s: "map state (crew_tasks (fst ?x)) = [PENDING, PENDING]"
    "map tokens (crew_agents (fst ?x)) = [0]"
    by (simp_all add: reset_states_def ex_crew_after_run_def)
  show ?thesis using reset_states_spec [OF e d] d f s by blast
qed

section \<open>Invalid decisions\<close>

lemma get_agent_modify:
  assumes "\<And>x. aid (f x) = aid x"
  shows "get_agent (modify_agent i f as) j
         = map_option (\<lambda>x. if aid x = i then f x else x) (get_agent as j)"
  unfolding get_agent_def modify_agent_def
  by (rule find_map_keyed) (simp add: assms)

lemma get_agent_aid: "get_agent as i = Some a \<Longrightarrow> aid a = i"
  unfolding get_agent_def by (induction as) (auto split: if_splits)

lemma get_agent_modify_if:
  assumes "\<And>x. aid (f x) = aid x"
  shows "get_agent (modify_agent i f as) j
         = (if j = i then map_option f (get_agent as i) else get_agent as j)"
proof (cases "get_agent as j")
  case None
  then show ?thesis by (auto simp: get_agent_modify [OF assms])
next
  case (Some x)
  then show ?thesis by (auto simp: get_agent_modify [OF assms] dest: get_agent_aid)
qed


lemma action_dict_None_iff:
  "action_dict r = None \<longleftrightarrow> (case r of Some (JObj d) \<Rightarrow> map_of d ''action'' = None | _ \<Rightarrow> True)"
  by (auto simp: action_dict_def map_of_eq_None_iff split: option.splits json.splits)






text \<open>A tool name that is a list: the dispatcher returns its Unauthorized string, the
  assignment to \<open>current_tool_results[tool_name]\<close> raises, and the agent is left in
  USING\_TOOL.\<close>

lemma simulate_unhashable_tool_name:
  "snd (simulate_agent_work ex_python ex_kernel_running 0 0
          (Some (JObj [(''action'', JStr ''use_tool''),
                       (''tool_name'', JArr [JStr ''calculator''])])) r2) = Raises TypeError
   \<and> map a_state (agents (fst (simulate_agent_work ex_python ex_kernel_running 0 0
          (Some (JObj [(''action'', JStr ''use_tool''),
                       (''tool_name'', JArr [JStr ''calculator''])])) r2))) = [USING_TOOL]"
  by (simp add: simulate_agent_work_def action_dict_def py_get_def Let_def call_execute_tool_def
        parameter_names_def execute_tool_def ex_kernel_running_def ex_kernel_def load_crew_def
        Kernel_init_def Crew_init_def set_agent_state_def call_ollama_def get_agent_def
        modify_agent_def ex_agent_def Agent_init_def agent_record_usage_def tool_name_in_def
        record_usage_def ResourceMonitor_init_def split: prod.splits)

lemma get_agent_set_state:
  "get_agent (modify_agent i (\<lambda>a. a\<lparr>a_state := s\<rparr>) as) j
   = (if j = i then map_option (\<lambda>a. a\<lparr>a_state := s\<rparr>) (get_agent as i) else get_agent as j)"
  by (rule get_agent_modify_if) simp



lemma agent_record_usage_keeps:
  "a_state (agent_record_usage u n x) = a_state x"
  "current_task_id (agent_record_usage u n x) = current_task_id x"
  by (simp_all add: agent_record_usage_def)


lemma call_ollama_fields:
  "tasks (call_ollama k a t) = tasks k"
  "task_queue (call_ollama k a t) = task_queue k"
  "agents (call_ollama k a t) = modify_agent a (agent_record_usage ''tokens'' 100) (agents k)"
  "tool_registry (call_ollama k a t) = tool_registry k"
  by (simp_all add: call_ollama_def)

lemma set_agent_state_fields:
  "tasks (set_agent_state k a s) = tasks k"
  "task_queue (set_agent_state k a s) = task_queue k"
  "agents (set_agent_state k a s) = modify_agent a (\<lambda>x. x\<lparr>a_state := s\<rparr>) (agents k)"
  "tool_registry (set_agent_state k a s) = tool_registry k"
  "monitor (set_agent_state k a s) = monitor k"
  by (simp_all add: set_agent_state_def)



section \<open>The scheduling pass\<close>

lemma get_agent_mem: "get_agent as i = Some a \<Longrightarrow> a \<in> set as"
  unfolding get_agent_def by (induction as) (auto split: if_splits)

lemma get_agent_distinct:
  "distinct (map aid as) \<Longrightarrow> a \<in> set as \<Longrightarrow> get_agent as (aid a) = Some a"
  unfolding get_agent_def by (induction as) (auto simp: image_iff)

lemma get_agent_unique:
  "distinct (map aid as) \<Longrightarrow> get_agent as i = Some a \<Longrightarrow> b \<in> set as \<Longrightarrow> aid b = i \<Longrightarrow> b = a"
  using get_agent_distinct [of as b] by simp

lemma get_task_map_mem:
  assumes "\<And>t. t \<in> set ts \<Longrightarrow> tid (g t) = tid t"
  shows "get_task (map g ts) j = map_option g (get_task ts j)"
  using assms unfolding get_task_def by (induction ts) auto

lemma dep_ready_map:
  assumes "\<And>t. t \<in> set ts \<Longrightarrow> tid (g t) = tid t"
    "\<And>t. t \<in> set ts \<Longrightarrow> state (g t) = COMPLETED \<longleftrightarrow> state t = COMPLETED"
    "\<And>t. t \<in> set ts \<Longrightarrow> result (g t) = result t"
  shows "dep_ready (map g ts) d = dep_ready ts d"
proof (cases "get_task ts d")
  case None
  then show ?thesis by (simp add: dep_ready_def get_task_map_mem assms(1))
next
  case (Some dt)
  then have "dt \<in> set ts" by (rule get_task_mem)
  with Some show ?thesis by (simp add: dep_ready_def get_task_map_mem assms)
qed

lemma dep_section_map:
  assumes "\<And>t. t \<in> set ts \<Longrightarrow> tid (g t) = tid t"
    "\<And>t. t \<in> set ts \<Longrightarrow> description (g t) = description t"
    "\<And>t. t \<in> set ts \<Longrightarrow> result (g t) = result t"
  shows "dep_section (map g ts) d = dep_section ts d"
proof (cases "get_task ts d")
  case None
  then show ?thesis by (simp add: dep_section_def get_task_map_mem assms(1))
next
  case (Some dt)
  then have "dt \<in> set ts" by (rule get_task_mem)
  with Some show ?thesis
    by (simp add: dep_section_def get_task_map_mem assms split: option.splits)
qed

lemma context_of_map:
  assumes "\<And>t. t \<in> set ts \<Longrightarrow> tid (g t) = tid t"
    "\<And>t. t \<in> set ts \<Longrightarrow> state (g t) = COMPLETED \<longleftrightarrow> state t = COMPLETED"
    "\<And>t. t \<in> set ts \<Longrightarrow> result (g t) = result t"
    "\<And>t. t \<in> set ts \<Longrightarrow> description (g t) = description t"
  shows "context_of (map g ts) ds = context_of ts ds"
proof -
  have "dep_ready (map g ts) = dep_ready ts"
    using assms by (intro ext dep_ready_map)
  moreover have "dep_section (map g ts) = dep_section ts"
    using assms by (intro ext dep_section_map)
  ultimately show ?thesis by (simp add: context_of_def)
qed

text \<open>One promotion, in map form.\<close>

lemma promote_step_tasks:
  assumes d: "distinct (map tid ts)" and m: "l \<in> set ts" and s: "state l = ASSIGNED"
  shows "fst (build_context (update_task_state ts (tid l) RUNNING) l)
         = map (\<lambda>t. if tid t = tid l
                     then t\<lparr>state := RUNNING, t_context := context_of ts (dependencies l)\<rparr>
                     else t) ts"
proof -
  let ?g = "\<lambda>t. if tid t = tid l then t\<lparr>state := RUNNING\<rparr> else t"
  have u: "update_task_state ts (tid l) RUNNING = map ?g ts"
    using d by (rule update_task_state_map)
  have same: "t = l" if "t \<in> set ts" "tid t = tid l" for t
    using get_task_unique [OF d get_task_distinct [OF d m] that] .
  have c: "context_of (map ?g ts) (dependencies l) = context_of ts (dependencies l)"
  proof (rule context_of_map)
    fix t assume t: "t \<in> set ts"
    show "tid (?g t) = tid t" "result (?g t) = result t" "description (?g t) = description t"
      by simp_all
    show "state (?g t) = COMPLETED \<longleftrightarrow> state t = COMPLETED"
      using same [OF t] s by (cases "tid t = tid l") auto
  qed
  show ?thesis
    by (simp add: build_context_eq u c add_context_def modify_task_def comp_def if_distrib cong: if_cong)
qed

lemma promote_loop_skip:
  assumes "\<not> promotable as l" "state l = ASSIGNED"
  shows "promote_loop (l # L) (as, ts) = promote_loop L (as, ts)"
  using assms by (auto simp: promotable_def split: option.splits)

lemma promote_loop_go:
  assumes "promotable as l" "agents_get as (assigned_agent_id l) = Some a"
  shows "promote_loop (l # L) (as, ts)
         = promote_loop L (modify_agent (aid a) (\<lambda>a. a\<lparr>a_state := RUNNING_TASK\<rparr>) as,
                           fst (build_context (update_task_state ts (tid l) RUNNING) l))"
  using assms by (auto simp: promotable_def Let_def split: option.splits)

lemma agents_get_SomeD:
  "agents_get as j = Some a \<Longrightarrow> j = Some (aid a) \<and> get_agent as (aid a) = Some a"
  by (cases j) (auto simp: agents_get_def dest: get_agent_aid)

text \<open>Starting the task of agent \<open>a\<close> does not change which other tasks can be started.\<close>

lemma promotable_after_start:
  assumes da: "distinct (map aid as)"
    and a: "get_agent as (aid a) = Some a" "current_task_id a = Some k"
    and l': "tid l' \<noteq> k"
  shows "promotable (modify_agent (aid a) (\<lambda>a. a\<lparr>a_state := RUNNING_TASK\<rparr>) as) l' = promotable as l'"
proof (cases "assigned_agent_id l'")
  case None
  then show ?thesis by (simp add: promotable_def agents_get_def)
next
  case (Some j)
  show ?thesis
  proof (cases "j = aid a")
    case True
    with Some a l' show ?thesis
      by (simp add: promotable_def agents_get_def get_agent_set_state)
  next
    case False
    with Some show ?thesis
      by (simp add: promotable_def agents_get_def get_agent_set_state)
  qed
qed

lemma promote_loop_map:
  assumes "distinct (map tid ts)" "distinct (map aid as)" "distinct (map tid L)"
    and "\<And>l. l \<in> set L \<Longrightarrow> l \<in> set ts \<and> state l = ASSIGNED"
  shows "promote_loop L (as, ts) =
     (map (\<lambda>a. if \<exists>l \<in> set L. promotable as l \<and> assigned_agent_id l = Some (aid a)
                then a\<lparr>a_state := RUNNING_TASK\<rparr> else a) as,
      map (\<lambda>t. if t \<in> set L \<and> promotable as t
                then t\<lparr>state := RUNNING, t_context := context_of ts (dependencies t)\<rparr> else t) ts)"
  using assms
proof (induction L arbitrary: as ts)
  case Nil
  then show ?case by simp
next
  case (Cons l L)
  have dt: "distinct (map tid ts)" and da: "distinct (map aid as)" by fact+
  have lm: "l \<in> set ts" and ls: "state l = ASSIGNED" using Cons.prems(4) by auto
  have dL: "distinct (map tid L)" and lL: "\<And>l'. l' \<in> set L \<Longrightarrow> tid l' \<noteq> tid l"
    using Cons.prems(3) by (auto simp: image_iff)
  have Lm: "\<And>l'. l' \<in> set L \<Longrightarrow> l' \<in> set ts \<and> state l' = ASSIGNED"
    using Cons.prems(4) by auto
  have same: "t = l" if "t \<in> set ts" "tid t = tid l" for t
    using get_task_unique [OF dt get_task_distinct [OF dt lm] that] .
  show ?case
  proof (cases "promotable as l")
    case False
    have "promote_loop (l # L) (as, ts) = promote_loop L (as, ts)"
      using False ls by (rule promote_loop_skip)
    also have "\<dots> = (map (\<lambda>a. if \<exists>l \<in> set L. promotable as l \<and> assigned_agent_id l = Some (aid a)
                then a\<lparr>a_state := RUNNING_TASK\<rparr> else a) as,
      map (\<lambda>t. if t \<in> set L \<and> promotable as t
                then t\<lparr>state := RUNNING, t_context := context_of ts (dependencies t)\<rparr> else t) ts)"
      using dt da dL Lm by (rule Cons.IH)
    also have "\<dots> = (map (\<lambda>a. if \<exists>l \<in> set (l # L). promotable as l \<and> assigned_agent_id l = Some (aid a)
                then a\<lparr>a_state := RUNNING_TASK\<rparr> else a) as,
      map (\<lambda>t. if t \<in> set (l # L) \<and> promotable as t
                then t\<lparr>state := RUNNING, t_context := context_of ts (dependencies t)\<rparr> else t) ts)"
      using False by auto
    finally show ?thesis .
  next
    case True
    then obtain a where ag: "agents_get as (assigned_agent_id l) = Some a"
      and cur: "current_task_id a = Some (tid l)" and st: "a_state a = AGENT_ASSIGNED"
      by (auto simp: promotable_def split: option.splits)
    from agents_get_SomeD [OF ag] have al: "assigned_agent_id l = Some (aid a)"
      and ga: "get_agent as (aid a) = Some a" by auto
    define ga' :: "agent \<Rightarrow> agent" where "ga' = (\<lambda>x. if aid x = aid a then x\<lparr>a_state := RUNNING_TASK\<rparr> else x)"
    define gt :: "task \<Rightarrow> task" where "gt = (\<lambda>t. if tid t = tid l
                     then t\<lparr>state := RUNNING, t_context := context_of ts (dependencies l)\<rparr> else t)"
    define as1 where "as1 = map ga' as"
    define ts2 where "ts2 = map gt ts"
    have as1: "modify_agent (aid a) (\<lambda>a. a\<lparr>a_state := RUNNING_TASK\<rparr>) as = as1"
      by (simp add: modify_agent_def as1_def ga'_def)
    have ts2: "fst (build_context (update_task_state ts (tid l) RUNNING) l) = ts2"
      unfolding ts2_def gt_def using dt lm ls by (rule promote_step_tasks)
    have step: "promote_loop (l # L) (as, ts) = promote_loop L (as1, ts2)"
      using promote_loop_go [OF True ag, of L ts] by (simp add: as1 ts2)
    have dt2: "distinct (map tid ts2)" using dt by (simp add: ts2_def comp_def gt_def if_distrib cong: if_cong)
    have da1: "distinct (map aid as1)" using da by (simp add: as1_def comp_def ga'_def if_distrib cong: if_cong)
    have Lm2: "l' \<in> set ts2 \<and> state l' = ASSIGNED" if "l' \<in> set L" for l'
    proof -
      from Lm [OF that] lL [OF that] have "l' \<in> set ts" "gt l' = l'" "state l' = ASSIGNED"
        by (auto simp: gt_def)
      then show ?thesis unfolding ts2_def by (metis image_eqI set_map)
    qed
    have IH: "promote_loop L (as1, ts2) =
      (map (\<lambda>a. if \<exists>l \<in> set L. promotable as1 l \<and> assigned_agent_id l = Some (aid a)
                then a\<lparr>a_state := RUNNING_TASK\<rparr> else a) as1,
       map (\<lambda>t. if t \<in> set L \<and> promotable as1 t
                then t\<lparr>state := RUNNING, t_context := context_of ts2 (dependencies t)\<rparr> else t) ts2)"
      using dt2 da1 dL Lm2 by (rule Cons.IH)
    have P1: "promotable as1 l' = promotable as l'" if "l' \<in> set L" for l'
      unfolding as1 [symmetric] using da ga cur lL [OF that] by (rule promotable_after_start)
    have ctx: "context_of ts2 ds = context_of ts ds" for ds
      unfolding ts2_def
    proof (rule context_of_map)
      fix t assume t: "t \<in> set ts"
      show "tid (gt t) = tid t" "result (gt t) = result t" "description (gt t) = description t"
        by (simp_all add: gt_def)
      show "state (gt t) = COMPLETED \<longleftrightarrow> state t = COMPLETED"
        using same [OF t] ls by (cases "tid t = tid l") (auto simp: gt_def)
    qed
    let ?FA = "\<lambda>a. if \<exists>l \<in> set L. promotable as1 l \<and> assigned_agent_id l = Some (aid a)
                then a\<lparr>a_state := RUNNING_TASK\<rparr> else a"
    let ?FT = "\<lambda>t. if t \<in> set L \<and> promotable as1 t
                then t\<lparr>state := RUNNING, t_context := context_of ts2 (dependencies t)\<rparr> else t"
    have A: "map ?FA as1
           = map (\<lambda>a. if \<exists>l \<in> set (l # L). promotable as l \<and> assigned_agent_id l = Some (aid a)
                then a\<lparr>a_state := RUNNING_TASK\<rparr> else a) as"
    proof -
      have "map ?FA as1 = map (\<lambda>x. ?FA (ga' x)) as" by (simp add: as1_def comp_def)
      also have "\<dots> = map (\<lambda>a. if \<exists>l \<in> set (l # L). promotable as l \<and> assigned_agent_id l = Some (aid a)
                then a\<lparr>a_state := RUNNING_TASK\<rparr> else a) as"
      proof (intro map_cong refl)
        fix x assume "x \<in> set as"
        show "?FA (ga' x)
              = (if \<exists>l \<in> set (l # L). promotable as l \<and> assigned_agent_id l = Some (aid x)
                  then x\<lparr>a_state := RUNNING_TASK\<rparr> else x)"
        proof (cases "aid x = aid a")
          case True
          with \<open>promotable as l\<close> al show ?thesis by (auto simp: ga'_def)
        next
          case False
          with al P1 show ?thesis by (auto simp: ga'_def)
        qed
      qed
      finally show ?thesis .
    qed
    have T: "map ?FT ts2
           = map (\<lambda>t. if t \<in> set (l # L) \<and> promotable as t
                then t\<lparr>state := RUNNING, t_context := context_of ts (dependencies t)\<rparr> else t) ts"
    proof -
      have "map ?FT ts2 = map (\<lambda>t. ?FT (gt t)) ts" by (simp add: ts2_def comp_def)
      also have "\<dots> = map (\<lambda>t. if t \<in> set (l # L) \<and> promotable as t
                then t\<lparr>state := RUNNING, t_context := context_of ts (dependencies t)\<rparr> else t) ts"
      proof (intro map_cong refl)
        fix t assume t: "t \<in> set ts"
        show "?FT (gt t)
              = (if t \<in> set (l # L) \<and> promotable as t
                  then t\<lparr>state := RUNNING, t_context := context_of ts (dependencies t)\<rparr> else t)"
        proof (cases "tid t = tid l")
          case True
          then have tl: "t = l" using same [OF t] by simp
          have "gt l \<notin> set L"
          proof
            assume "gt l \<in> set L"
            from Lm [OF this] show False by (simp add: gt_def)
          qed
          with tl \<open>promotable as l\<close> show ?thesis by (simp add: gt_def)
        next
          case False
          then have "gt t = t" "t \<noteq> l" by (auto simp: gt_def)
          then show ?thesis using P1 ctx by auto
        qed
      qed
      finally show ?thesis .
    qed
    show ?thesis by (simp only: step IH A T)
  qed
qed

lemma promote_loop_assigned:
  assumes dt: "distinct (map tid ts)" and da: "distinct (map aid as)"
  shows "promote_loop (filter (\<lambda>t. state t = ASSIGNED) ts) (as, ts)
         = (map (promote_agent as ts) as, map (promote_task as ts) ts)"
proof -
  let ?L = "filter (\<lambda>t. state t = ASSIGNED) ts"
  have "promote_loop ?L (as, ts) =
     (map (\<lambda>a. if \<exists>l \<in> set ?L. promotable as l \<and> assigned_agent_id l = Some (aid a)
                then a\<lparr>a_state := RUNNING_TASK\<rparr> else a) as,
      map (\<lambda>t. if t \<in> set ?L \<and> promotable as t
                then t\<lparr>state := RUNNING, t_context := context_of ts (dependencies t)\<rparr> else t) ts)"
    using dt da by (intro promote_loop_map) (auto simp: distinct_map_filter)
  also have "\<dots> = (map (promote_agent as ts) as, map (promote_task as ts) ts)"
  proof -
    have "(\<exists>l \<in> set ?L. promotable as l \<and> assigned_agent_id l = Some i)
          \<longleftrightarrow> list_ex (\<lambda>t. promotable as t \<and> assigned_agent_id t = Some i) ts" for i
      by (auto simp: list_ex_iff promotable_def)
    moreover have "(t \<in> set ?L \<and> promotable as t) \<longleftrightarrow> promotable as t" if "t \<in> set ts" for t
      using that by (auto simp: promotable_def)
    ultimately show ?thesis
      by (auto simp: promote_agent_def promote_task_def intro!: map_cong)
  qed
  finally show ?thesis .
qed

lemma find_filter_hd:
  "find P xs = (case filter P xs of [] \<Rightarrow> None | x # _ \<Rightarrow> Some x)"
  by (induction xs) auto

lemma assign_task_to_agent_eq:
  assumes "distinct (map tid (tasks k))"
  shows "assign_task_to_agent k h a = bind_task h a k"
proof -
  let ?m = "modify_task h (\<lambda>t. t\<lparr>assigned_agent_id := Some a\<rparr>) (tasks k)"
  have d: "distinct (map tid ?m)"
    using assms by (simp add: modify_task_def comp_def if_distrib cong: if_cong)
  have "update_task_state ?m h ASSIGNED
        = map (\<lambda>t. if tid t = h then t\<lparr>state := ASSIGNED\<rparr> else t) ?m"
    using d by (rule update_task_state_map)
  also have "\<dots> = map (\<lambda>t. if tid t = h then t\<lparr>assigned_agent_id := Some a, state := ASSIGNED\<rparr> else t) (tasks k)"
    by (simp add: modify_task_def comp_def if_distrib cong: if_cong)
  finally have "update_task_state ?m h ASSIGNED
        = map (\<lambda>t. if tid t = h then t\<lparr>assigned_agent_id := Some a, state := ASSIGNED\<rparr> else t) (tasks k)" .
  then show ?thesis
    by (simp add: assign_task_to_agent_def bind_task_def Let_def modify_agent_def assign_task_def)
qed

lemma promotion_keys:
  "map tid (tasks (promotion k)) = map tid (tasks k)"
  "map aid (agents (promotion k)) = map aid (agents k)"
  by (simp_all add: promotion_def comp_def promote_task_def promote_agent_def if_distrib cong: if_cong)

lemma schedule_next_eq:
  assumes seq: "process k = SEQUENTIAL"
    and dt: "distinct (map tid (tasks k))" and da: "distinct (map aid (agents k))"
  shows "schedule_next k = sequential_pass k"
proof -
  have p: "(case promote_loop (filter (\<lambda>t. state t = ASSIGNED) (tasks k)) (agents k, tasks k) of
              (as1, ts1) \<Rightarrow> k\<lparr>agents := as1, tasks := ts1\<rparr>) = promotion k"
    by (simp add: promote_loop_assigned [OF dt da] promotion_def)
  have d1: "distinct (map tid (tasks (promotion k)))" using dt by (simp add: promotion_keys)
  have r: "(promotion k)\<lparr>tasks := check_and_update_task_readiness (tasks (promotion k))\<rparr>
           = readiness_recomputed (promotion k)"
    by (simp add: readiness_recomputed_def readiness_map [OF d1])
  have q: "task_queue (promotion k) = task_queue k" by (simp add: promotion_def)
  have d2: "distinct (map tid (tasks (readiness_recomputed (promotion k))))"
    using d1 by (simp add: readiness_recomputed_def comp_def promote_ready_def if_distrib cong: if_cong)
  show ?thesis
  proof (cases "task_queue k")
    case Nil
    then show ?thesis using seq by (simp add: schedule_next_def sequential_pass_def Let_def p q)
  next
    case (Cons h rest)
    let ?k2 = "readiness_recomputed (promotion k)"
    have d2': "distinct (map tid (tasks (?k2\<lparr>task_queue := rest\<rparr>)))" using d2 by simp
    show ?thesis
    proof (cases "get_task (tasks ?k2) h")
      case None
      with Cons seq show ?thesis
        by (simp add: schedule_next_def sequential_pass_def Let_def p q r)
    next
      case (Some task)
      then have th: "tid task = h" by (rule get_task_tid)
      show ?thesis
        using Cons seq Some th
        by (simp add: schedule_next_def sequential_pass_def Let_def p q r
              get_available_agents_def find_filter_hd assign_task_to_agent_eq [OF d2']
            split: list.splits)
    qed
  qed
qed

lemma bind_only:
  "state (promote_ready ts1 (promote_task as ts t)) = ASSIGNED \<Longrightarrow> state t = ASSIGNED"
  by (auto simp: promote_ready_def promote_task_def becomes_ready_def promotable_def split: if_splits)

lemma sequential_pass_tasks:
  "\<exists>G. tasks (sequential_pass k) = map G (tasks k)
       \<and> (\<forall>t. state (G t) = ASSIGNED \<and> state t \<noteq> ASSIGNED
               \<longrightarrow> task_queue k \<noteq> [] \<and> tid t = hd (task_queue k))
       \<and> (\<forall>t. tid (G t) = tid t)"
proof -
  let ?G0 = "promote_task (agents k) (tasks k)"
  let ?G1 = "\<lambda>t. promote_ready (tasks (promotion k)) (?G0 t)"
  have t0: "tasks (promotion k) = map ?G0 (tasks k)" by (simp add: promotion_def)
  have t1: "tasks (readiness_recomputed (promotion k)) = map ?G1 (tasks k)"
    by (simp add: readiness_recomputed_def t0 comp_def)
  have k0: "tid (?G0 t) = tid t" for t by (simp add: promote_task_def)
  have k1: "tid (?G1 t) = tid t" for t by (simp add: promote_ready_def k0)
  have g0: "state (?G0 t) = ASSIGNED \<Longrightarrow> state t = ASSIGNED" for t
    by (auto simp: promote_task_def split: if_splits)
  have g1: "state (?G1 t) = ASSIGNED \<Longrightarrow> state t = ASSIGNED" for t
    by (rule bind_only)
  show ?thesis
  proof (cases "task_queue k")
    case Nil
    then have "tasks (sequential_pass k) = map ?G0 (tasks k)"
      by (simp add: sequential_pass_def Let_def t0)
    with g0 k0 show ?thesis by blast
  next
    case (Cons h rest)
    let ?B = "\<lambda>a t. if tid t = h then t\<lparr>assigned_agent_id := Some a, state := ASSIGNED\<rparr> else t"
    have "tasks (sequential_pass k) = map ?G1 (tasks k)
          \<or> (\<exists>a. tasks (sequential_pass k) = map (\<lambda>t. ?B a (?G1 t)) (tasks k))"
      using Cons
      by (auto simp: sequential_pass_def Let_def t1 bind_task_def comp_def
          split: option.splits)
    then show ?thesis
    proof
      assume "tasks (sequential_pass k) = map ?G1 (tasks k)"
      with g1 k1 show ?thesis by blast
    next
      assume "\<exists>a. tasks (sequential_pass k) = map (\<lambda>t. ?B a (?G1 t)) (tasks k)"
      then obtain a where a: "tasks (sequential_pass k) = map (\<lambda>t. ?B a (?G1 t)) (tasks k)" ..
      have "task_queue k \<noteq> [] \<and> tid t = hd (task_queue k)"
        if "state (?B a (?G1 t)) = ASSIGNED \<and> state t \<noteq> ASSIGNED" for t
        using that g1 [of t] k1 [of t] Cons by (auto split: if_splits)
      moreover have "tid (?B a (?G1 t)) = tid t" for t using k1 [of t] by simp
      ultimately show ?thesis using a by blast
    qed
  qed
qed

lemma filter_key_le_one:
  assumes "distinct (map tid ts)" "\<And>t. P t \<Longrightarrow> tid t = h"
  shows "length (filter P ts) \<le> 1"
  using assms
proof (induction ts)
  case Nil
  then show ?case by simp
next
  case (Cons t ts)
  show ?case
  proof (cases "P t")
    case True
    then have "tid t = h" by (rule Cons.prems(2))
    with Cons.prems have "\<And>u. u \<in> set ts \<Longrightarrow> \<not> P u" by (auto simp: image_iff)
    then have "filter P ts = []" by (simp add: filter_empty_conv)
    with True show ?thesis by simp
  next
    case False
    with Cons show ?thesis by simp
  qed
qed

lemma newly_assigned_map:
  "newly_assigned ts (map G ts)
   = map tid (filter (\<lambda>t. state t \<noteq> ASSIGNED \<and> state (G t) = ASSIGNED) ts)"
  by (induction ts) (auto simp: newly_assigned_def)

lemma sequential_pass_one:
  assumes "distinct (map tid (tasks k))"
  shows "length (newly_assigned (tasks k) (tasks (sequential_pass k))) \<le> 1"
proof -
  from sequential_pass_tasks [of k] obtain G where
    G: "tasks (sequential_pass k) = map G (tasks k)"
    and only: "\<And>t. state (G t) = ASSIGNED \<and> state t \<noteq> ASSIGNED \<Longrightarrow> tid t = hd (task_queue k)"
    by blast
  have "length (filter (\<lambda>t. state t \<noteq> ASSIGNED \<and> state (G t) = ASSIGNED) (tasks k)) \<le> 1"
    using assms by (rule filter_key_le_one) (use only in blast)
  then show ?thesis by (simp add: G newly_assigned_map)
qed

lemma sequential_pass_queue:
  "task_queue (sequential_pass k) = task_queue k
   \<or> task_queue (sequential_pass k) = tl (task_queue k)"
  by (auto simp: sequential_pass_def Let_def promotion_def readiness_recomputed_def bind_task_def
      split: list.splits option.splits)

lemma sequential_pass_blocked:
  assumes "task_queue k = h # rest"
    and "get_task (tasks (readiness_recomputed (promotion k))) h = Some task"
    and "state task = PENDING"
  shows "sequential_pass k = readiness_recomputed (promotion k)"
  using assms by (simp add: sequential_pass_def Let_def)

lemma no_binding_change:
  "task_queue (readiness_recomputed (promotion k)) = task_queue k"
  "map assigned_agent_id (tasks (readiness_recomputed (promotion k))) = map assigned_agent_id (tasks k)"
  "map current_task_id (agents (readiness_recomputed (promotion k))) = map current_task_id (agents k)"
  by (simp_all add: readiness_recomputed_def promotion_def comp_def promote_ready_def
        promote_task_def promote_agent_def if_distrib cong: if_cong)

text \<open>
  C3. Under the SEQUENTIAL policy a scheduling pass is \<open>sequential_pass\<close>: it starts every
  ASSIGNED task whose bound agent is ASSIGNED with that task as current task (task RUNNING
  with its context built from the table as it is now, agent RUNNING\_TASK), then handles the
  queue head alone as described there. The queue after the pass is the queue before it or
  its tail; at most one task is newly ASSIGNED; and when the head is PENDING after the
  readiness recompute, the queue, every task's \<open>assigned_agent_id\<close> and every agent's
  current task are unchanged.
\<close>

theorem schedule_next_sequential:
  assumes seq: "process k = SEQUENTIAL"
    and dt: "distinct (map tid (tasks k))" and da: "distinct (map aid (agents k))"
  shows "schedule_next k = sequential_pass k
       \<and> (task_queue (schedule_next k) = task_queue k
          \<or> task_queue (schedule_next k) = tl (task_queue k))
       \<and> length (newly_assigned (tasks k) (tasks (schedule_next k))) \<le> 1
       \<and> (\<forall>h rest task.
             task_queue k = h # rest
             \<and> get_task (tasks (readiness_recomputed (promotion k))) h = Some task
             \<and> state task = PENDING
             \<longrightarrow> task_queue (schedule_next k) = task_queue k
                 \<and> map assigned_agent_id (tasks (schedule_next k)) = map assigned_agent_id (tasks k)
                 \<and> map current_task_id (agents (schedule_next k)) = map current_task_id (agents k))"
proof -
  have eq: "schedule_next k = sequential_pass k" using assms by (rule schedule_next_eq)
  have one: "length (newly_assigned (tasks k) (tasks (sequential_pass k))) \<le> 1"
    using dt by (rule sequential_pass_one)
  have blocked: "task_queue (sequential_pass k) = task_queue k
       \<and> map assigned_agent_id (tasks (sequential_pass k)) = map assigned_agent_id (tasks k)
       \<and> map current_task_id (agents (sequential_pass k)) = map current_task_id (agents k)"
    if "task_queue k = h # rest"
       "get_task (tasks (readiness_recomputed (promotion k))) h = Some task" "state task = PENDING"
    for h rest task
    using sequential_pass_blocked [OF that] no_binding_change [of k] by simp
  show ?thesis
    unfolding eq using sequential_pass_queue [of k] one blocked by blast
qed

theorem schedule_next_sequential_witness:
  "process ex_kernel_sched = SEQUENTIAL
   \<and> distinct (map tid (tasks ex_kernel_sched)) \<and> distinct (map aid (agents ex_kernel_sched))
   \<and> map state (tasks (schedule_next ex_kernel_sched)) = [RUNNING, ASSIGNED, READY]
   \<and> map t_context (tasks (schedule_next ex_kernel_sched)) = [Some [], None, None]
   \<and> map assigned_agent_id (tasks (schedule_next ex_kernel_sched)) = [Some 0, Some 1, None]
   \<and> map a_state (agents (schedule_next ex_kernel_sched)) = [RUNNING_TASK, AGENT_ASSIGNED]
   \<and> map current_task_id (agents (schedule_next ex_kernel_sched)) = [Some 0, Some 1]
   \<and> task_queue (schedule_next ex_kernel_sched) = [2]"
proof -
  have p: "process ex_kernel_sched = SEQUENTIAL"
    by (simp add: ex_kernel_sched_def ex_kernel_def load_crew_def Crew_init_def)
  have ts: "tasks ex_kernel_sched = [ex_task 0 [] ASSIGNED None\<lparr>assigned_agent_id := Some 0\<rparr>,
                          ex_task 1 [] PENDING None, ex_task 2 [] PENDING None]"
    and as: "agents ex_kernel_sched
             = [(ex_agent 0 [''calculator''])\<lparr>a_state := AGENT_ASSIGNED, current_task_id := Some 0\<rparr>,
                ex_agent 1 []]"
    and q: "task_queue ex_kernel_sched = [1, 2]"
    by (simp_all add: ex_kernel_sched_def)
  have dt: "distinct (map tid (tasks ex_kernel_sched))"
    by (simp add: ts ex_task_def Task_init_def)
  have da: "distinct (map aid (agents ex_kernel_sched))"
    by (simp add: as ex_agent_def Agent_init_def)
  have pr: "tasks (promotion ex_kernel_sched)
            = [ex_task 0 [] ASSIGNED None\<lparr>assigned_agent_id := Some 0, state := RUNNING, t_context := Some []\<rparr>,
               ex_task 1 [] PENDING None, ex_task 2 [] PENDING None]"
    "agents (promotion ex_kernel_sched)
            = [(ex_agent 0 [''calculator''])\<lparr>a_state := RUNNING_TASK, current_task_id := Some 0\<rparr>,
               ex_agent 1 []]"
    "task_queue (promotion ex_kernel_sched) = [1, 2]"
    by (simp_all add: promotion_def ts as q promote_task_def promote_agent_def promotable_def
          agents_get_def get_agent_def ex_task_def ex_agent_def Task_init_def Agent_init_def
          context_of_def)
  have rr: "tasks (readiness_recomputed (promotion ex_kernel_sched))
            = [ex_task 0 [] ASSIGNED None\<lparr>assigned_agent_id := Some 0, state := RUNNING, t_context := Some []\<rparr>,
               ex_task 1 [] READY None, ex_task 2 [] READY None]"
    "agents (readiness_recomputed (promotion ex_kernel_sched)) = agents (promotion ex_kernel_sched)"
    "task_queue (readiness_recomputed (promotion ex_kernel_sched)) = [1, 2]"
    by (simp_all add: readiness_recomputed_def pr promote_ready_def becomes_ready_def
          ex_task_def Task_init_def)
  have sp: "sequential_pass ex_kernel_sched
            = bind_task 1 1 ((readiness_recomputed (promotion ex_kernel_sched))\<lparr>task_queue := [2]\<rparr>)"
    by (simp add: sequential_pass_def Let_def q rr pr get_task_def ex_task_def Task_init_def
          ex_agent_def Agent_init_def)
  have res: "map state (tasks (sequential_pass ex_kernel_sched)) = [RUNNING, ASSIGNED, READY]"
    "map t_context (tasks (sequential_pass ex_kernel_sched)) = [Some [], None, None]"
    "map assigned_agent_id (tasks (sequential_pass ex_kernel_sched)) = [Some 0, Some 1, None]"
    "map a_state (agents (sequential_pass ex_kernel_sched)) = [RUNNING_TASK, AGENT_ASSIGNED]"
    "map current_task_id (agents (sequential_pass ex_kernel_sched)) = [Some 0, Some 1]"
    "task_queue (sequential_pass ex_kernel_sched) = [2]"
    by (simp_all add: sp bind_task_def rr pr ex_task_def Task_init_def ex_agent_def Agent_init_def)
  from schedule_next_sequential [OF p dt da]
  have "schedule_next ex_kernel_sched = sequential_pass ex_kernel_sched" by blast
  with p dt da res show ?thesis by simp
qed

section \<open>Invariants of a run\<close>

lemma final_answer_part_fst:
  "fst (final_answer_part P k a t d) = set_agent_state k a RUNNING_TASK
   \<or> (\<exists>r. fst (final_answer_part P k a t d) = complete_task k a t r)"
  by (auto simp: final_answer_part_def complete_task_def Let_def split: option.splits)

lemma call_execute_tool_cases:
  "call_execute_tool P reg True as m a (Some t) n x = Raises TypeError
   \<or> call_execute_tool P reg True as m a (Some t) n x
       = Returns (execute_tool P reg True as m a (Some t) n x)"
  by (simp add: call_execute_tool_def)

text \<open>A rule for the work step: a property of the state that the oracle accounting, the
  agent's moves between RUNNING\_TASK and USING\_TOOL and the tool dispatch keep, and that
  gives \<open>R\<close> also after a completion, gives \<open>R\<close> for the state the step ends in, whether
  it returns or raises.\<close>

lemma work_step_rule:
  assumes q0: "Q k"
    and ollama: "\<And>k. Q k \<Longrightarrow> Q (call_ollama k a t)"
    and st: "\<And>k s. Q k \<Longrightarrow> s = USING_TOOL \<or> s = RUNNING_TASK \<Longrightarrow> Q (set_agent_state k a s)"
    and tool: "\<And>k n x. Q k \<Longrightarrow> Q (after_tool P k a t n x)"
    and fin: "\<And>k r. Q k \<Longrightarrow> R (complete_task k a t r)"
    and weak: "\<And>k. Q k \<Longrightarrow> R k"
  shows "R (fst (simulate_agent_work P k a t r1 r2))"
proof -
  let ?k1 = "call_ollama k a t"
  have q1: "Q ?k1" using q0 by (rule ollama)
  have fa: "R (fst (final_answer_part P k' a t d))" if "Q k'" for k' d
    using final_answer_part_fst [of P k' a t d] st [OF that, of RUNNING_TASK] fin [OF that] weak
    by auto
  show ?thesis
  proof (cases "action_dict r1")
    case None
    then show ?thesis using weak [OF q1] by (simp add: simulate_agent_work_def)
  next
    case (Some d1)
    note ad = this
    show ?thesis
    proof (cases "py_get d1 ''action'' = Some (JStr ''use_tool'')")
      case False
      with ad show ?thesis using fa [OF q1] by (simp add: simulate_agent_work_def)
    next
      case True
      note use = this
      let ?args = "case map_of d1 ''arguments'' of None \<Rightarrow> Some (JObj []) | Some v \<Rightarrow> Some v"
      show ?thesis
      proof (cases "\<exists>x. ?args = Some (JObj x)")
        case False
        then have "fst (simulate_agent_work P k a t r1 r2) = ?k1"
          using ad use
          by (auto simp: simulate_agent_work_def Let_def split: option.splits json.splits)
        then show ?thesis using weak [OF q1] by simp
      next
        case True
        then obtain x where x: "?args = Some (JObj x)" ..
        show ?thesis
        proof (cases "\<exists>n. py_get d1 ''tool_name'' = Some n \<and> py_truthy n")
          case False
          then have "fst (simulate_agent_work P k a t r1 r2) = ?k1"
            using ad use x
            by (auto simp: simulate_agent_work_def Let_def split: option.splits)
          then show ?thesis using weak [OF q1] by simp
        next
          case True
          then obtain n where n: "py_get d1 ''tool_name'' = Some n" "py_truthy n" by blast
          let ?k2 = "set_agent_state ?k1 a USING_TOOL"
          have q2: "Q ?k2" using q1 by (rule st) simp
          from call_execute_tool_cases [of P "tool_registry ?k2" "agents ?k2" "monitor ?k2" a t n x]
          show ?thesis
          proof
            assume "call_execute_tool P (tool_registry ?k2) True (agents ?k2) (monitor ?k2) a (Some t) n x
                    = Raises TypeError"
            then have "fst (simulate_agent_work P k a t r1 r2) = ?k2"
              using ad use x n by (simp add: simulate_agent_work_def Let_def)
            then show ?thesis using weak [OF q2] by simp
          next
            assume c: "call_execute_tool P (tool_registry ?k2) True (agents ?k2) (monitor ?k2) a (Some t) n x
                    = Returns (execute_tool P (tool_registry ?k2) True (agents ?k2) (monitor ?k2) a (Some t) n x)"
            let ?k3 = "after_tool P ?k2 a t n x"
            let ?k4 = "call_ollama ?k3 a t"
            have q3: "Q ?k3" using q2 by (rule tool)
            have q4: "Q ?k4" using q3 by (rule ollama)
            show ?thesis
            proof (cases "py_hashable n")
              case False
              then have "fst (simulate_agent_work P k a t r1 r2) = ?k3"
                using ad use x n c
                by (simp add: simulate_agent_work_def Let_def after_tool_def split: prod.splits)
              then show ?thesis using weak [OF q3] by simp
            next
              case True
              then have "fst (simulate_agent_work P k a t r1 r2)
                    = (case action_dict r2 of
                         None \<Rightarrow> set_agent_state ?k4 a RUNNING_TASK
                       | Some d2 \<Rightarrow> fst (final_answer_part P ?k4 a t d2))"
                using ad use x n c
                by (simp add: simulate_agent_work_def Let_def after_tool_def
                    split: prod.splits option.splits)
              then show ?thesis
                using fa [OF q4] weak [OF st [OF q4, of RUNNING_TASK]]
                by (auto split: option.splits)
            qed
          qed
        qed
      qed
    qed
  qed
qed

lemma get_agent_map_mem:
  assumes "\<And>x. x \<in> set as \<Longrightarrow> aid (H x) = aid x"
  shows "get_agent (map H as) j = map_option H (get_agent as j)"
  using assms unfolding get_agent_def by (induction as) auto

lemma agents_get_map_mem:
  assumes "\<And>x. x \<in> set as \<Longrightarrow> aid (H x) = aid x"
  shows "agents_get (map H as) j = map_option H (agents_get as j)"
  by (cases j) (simp_all add: agents_get_def get_agent_map_mem [OF assms])

lemma agents_get_mem: "agents_get as j = Some a \<Longrightarrow> a \<in> set as"
  by (cases j) (auto simp: agents_get_def dest: get_agent_mem)

text \<open>An update of both tables, entry by entry, that makes no task active, rebinds no
  active task, idles no agent and changes no agent's current task, keeps the invariant.\<close>

lemma holds_tasks_update:
  assumes inv: "wf_tables k" "holds_tasks k"
    and t': "tasks k' = map G (tasks k)" and a': "agents k' = map H (agents k)"
    and G: "\<And>t. t \<in> set (tasks k) \<Longrightarrow> tid (G t) = tid t
              \<and> (active (G t) \<longrightarrow> active t \<and> assigned_agent_id (G t) = assigned_agent_id t)"
    and H: "\<And>x. x \<in> set (agents k) \<Longrightarrow> aid (H x) = aid x
              \<and> (a_state x \<noteq> IDLE \<longrightarrow> a_state (H x) \<noteq> IDLE \<and> current_task_id (H x) = current_task_id x)"
  shows "wf_tables k' \<and> holds_tasks k'"
proof
  have "map (tid \<circ> G) (tasks k) = map tid (tasks k)"
    by (rule map_cong [OF refl]) (simp add: G)
  then have m1: "map tid (tasks k') = map tid (tasks k)" by (simp add: t')
  have "map (aid \<circ> H) (agents k) = map aid (agents k)"
    by (rule map_cong [OF refl]) (simp add: H)
  then have m2: "map aid (agents k') = map aid (agents k)" by (simp add: a')
  show "wf_tables k'" using inv(1) by (simp add: wf_tables_def m1 m2)
  show "holds_tasks k'"
    unfolding holds_tasks_def list_all_iff t' a'
  proof (intro ballI impI)
    fix u assume "u \<in> set (map G (tasks k))" and act: "active u"
    then obtain t where t: "t \<in> set (tasks k)" and u: "u = G t" by auto
    from G [OF t] act u have at: "active t" and same: "assigned_agent_id u = assigned_agent_id t"
      and tu: "tid u = tid t" by auto
    from inv(2) t at obtain b where b: "agents_get (agents k) (assigned_agent_id t) = Some b"
      "a_state b \<noteq> IDLE" "current_task_id b = Some (tid t)"
      by (auto simp: holds_tasks_def list_all_iff split: option.splits)
    have bm: "b \<in> set (agents k)" using b(1) by (rule agents_get_mem)
    have "agents_get (map H (agents k)) (assigned_agent_id u) = Some (H b)"
      using H by (simp add: agents_get_map_mem same b(1))
    moreover have "a_state (H b) \<noteq> IDLE \<and> current_task_id (H b) = Some (tid u)"
      using H [OF bm] b tu by simp
    ultimately show "case agents_get (map H (agents k)) (assigned_agent_id u) of None \<Rightarrow> False
        | Some a \<Rightarrow> a_state a \<noteq> IDLE \<and> current_task_id a = Some (tid u)"
      by simp
  qed
qed

lemma inv_promotion:
  assumes "wf_tables k" "holds_tasks k"
  shows "wf_tables (promotion k) \<and> holds_tasks (promotion k)"
  using assms
proof (rule holds_tasks_update)
  show "tasks (promotion k) = map (promote_task (agents k) (tasks k)) (tasks k)"
    "agents (promotion k) = map (promote_agent (agents k) (tasks k)) (agents k)"
    by (simp_all add: promotion_def)
  fix t
  show "tid (promote_task (agents k) (tasks k) t) = tid t
        \<and> (active (promote_task (agents k) (tasks k) t)
             \<longrightarrow> active t \<and> assigned_agent_id (promote_task (agents k) (tasks k) t) = assigned_agent_id t)"
    by (auto simp: promote_task_def active_def promotable_def)
next
  fix x
  show "aid (promote_agent (agents k) (tasks k) x) = aid x
        \<and> (a_state x \<noteq> IDLE \<longrightarrow> a_state (promote_agent (agents k) (tasks k) x) \<noteq> IDLE
             \<and> current_task_id (promote_agent (agents k) (tasks k) x) = current_task_id x)"
    by (simp add: promote_agent_def)
qed

lemma inv_readiness_recomputed:
  assumes "wf_tables k" "holds_tasks k"
  shows "wf_tables (readiness_recomputed k) \<and> holds_tasks (readiness_recomputed k)"
  using assms
proof (rule holds_tasks_update)
  show "tasks (readiness_recomputed k) = map (promote_ready (tasks k)) (tasks k)"
    "agents (readiness_recomputed k) = map (\<lambda>x. x) (agents k)"
    by (simp_all add: readiness_recomputed_def)
  fix t
  show "tid (promote_ready (tasks k) t) = tid t
        \<and> (active (promote_ready (tasks k) t)
             \<longrightarrow> active t \<and> assigned_agent_id (promote_ready (tasks k) t) = assigned_agent_id t)"
    by (auto simp: promote_ready_def active_def becomes_ready_def)
qed simp

lemma map_key_keep:
  assumes "\<And>x. x \<in> set xs \<Longrightarrow> key (G x) = key x"
  shows "map key (map G xs) = map key xs"
proof -
  have "map (key \<circ> G) xs = map key xs" by (rule map_cong [OF refl]) (simp add: assms)
  then show ?thesis by simp
qed

lemma find_SomeD: "find P xs = Some a \<Longrightarrow> a \<in> set xs \<and> P a"
  by (induction xs) (auto split: if_splits)

lemma inv_same_tables:
  assumes "tasks k' = tasks k" "agents k' = agents k" "wf_tables k" "holds_tasks k"
  shows "wf_tables k' \<and> holds_tasks k'"
  using assms by (simp add: wf_tables_def holds_tasks_def)

lemma inv_bind_task:
  assumes wf: "wf_tables k" and h: "holds_tasks k"
    and head: "get_task (tasks k) hd_id = Some task" "state task = READY"
    and idle: "find (\<lambda>a. a_state a = IDLE) (agents k) = Some a"
  shows "wf_tables (bind_task hd_id (aid a) k) \<and> holds_tasks (bind_task hd_id (aid a) k)"
proof
  let ?B = "\<lambda>t. if tid t = hd_id then t\<lparr>assigned_agent_id := Some (aid a), state := ASSIGNED\<rparr> else t"
  let ?H = "\<lambda>x. if aid x = aid a then x\<lparr>current_task_id := Some hd_id, a_state := AGENT_ASSIGNED\<rparr> else x"
  have dt: "distinct (map tid (tasks k))" and da: "distinct (map aid (agents k))"
    using wf by (simp_all add: wf_tables_def)
  have tk: "tasks (bind_task hd_id (aid a) k) = map ?B (tasks k)"
    and ak: "agents (bind_task hd_id (aid a) k) = map ?H (agents k)"
    by (simp_all add: bind_task_def)
  have m1: "map tid (map ?B (tasks k)) = map tid (tasks k)" by (rule map_key_keep) simp
  have m2: "map aid (map ?H (agents k)) = map aid (agents k)" by (rule map_key_keep) simp
  show "wf_tables (bind_task hd_id (aid a) k)"
    unfolding wf_tables_def tk ak m1 m2 using dt da by (rule conjI)
  from find_SomeD [OF idle] have am: "a \<in> set (agents k)" and ai: "a_state a = IDLE" by auto
  have ga: "get_agent (agents k) (aid a) = Some a" using da am by (rule get_agent_distinct)
  have look: "agents_get (map ?H (agents k)) j = map_option ?H (agents_get (agents k) j)" for j
    by (rule agents_get_map_mem) simp
  show "holds_tasks (bind_task hd_id (aid a) k)"
    unfolding holds_tasks_def list_all_iff tk ak
  proof (intro ballI impI)
    fix u assume "u \<in> set (map ?B (tasks k))" and act: "active u"
    then obtain t where t: "t \<in> set (tasks k)" and u: "u = ?B t" by auto
    show "case agents_get (map ?H (agents k)) (assigned_agent_id u) of None \<Rightarrow> False
          | Some x \<Rightarrow> a_state x \<noteq> IDLE \<and> current_task_id x = Some (tid u)"
    proof (cases "tid t = hd_id")
      case True
      then have au: "assigned_agent_id u = Some (aid a)" "tid u = hd_id" using u by simp_all
      have "agents_get (agents k) (Some (aid a)) = Some a" by (simp add: agents_get_def ga)
      then have "agents_get (map ?H (agents k)) (Some (aid a)) = Some (?H a)"
        by (simp only: look option.map)
      then show ?thesis by (simp only: au) simp
    next
      case False
      then have ut: "u = t" using u by simp
      with act h t obtain b where b: "agents_get (agents k) (assigned_agent_id t) = Some b"
        "a_state b \<noteq> IDLE" "current_task_id b = Some (tid t)"
        by (auto simp: holds_tasks_def list_all_iff split: option.splits)
      have "b \<in> set (agents k)" using b(1) by (rule agents_get_mem)
      have "aid b \<noteq> aid a"
      proof
        assume "aid b = aid a"
        from get_agent_unique [OF da ga \<open>b \<in> set (agents k)\<close> this] have "b = a" .
        with b(2) ai show False by simp
      qed
      then show ?thesis using b by (simp add: ut look)
    qed
  qed
qed

lemma sequential_pass_shape:
  "sequential_pass k = promotion k
   \<or> sequential_pass k = readiness_recomputed (promotion k)
   \<or> sequential_pass k = (readiness_recomputed (promotion k))\<lparr>task_queue := tl (task_queue k)\<rparr>
   \<or> (\<exists>task a. get_task (tasks (readiness_recomputed (promotion k))) (hd (task_queue k)) = Some task
         \<and> state task = READY
         \<and> find (\<lambda>a. a_state a = IDLE) (agents (readiness_recomputed (promotion k))) = Some a
         \<and> sequential_pass k
             = bind_task (hd (task_queue k)) (aid a)
                 ((readiness_recomputed (promotion k))\<lparr>task_queue := tl (task_queue k)\<rparr>))"
  by (auto simp: sequential_pass_def Let_def split: list.splits option.splits)

lemma inv_schedule_next:
  assumes wf: "wf_tables k" and h: "holds_tasks k"
  shows "wf_tables (schedule_next k) \<and> holds_tasks (schedule_next k)"
proof (cases "process k = SEQUENTIAL")
  case False
  then show ?thesis using assms by (simp add: schedule_next_def)
next
  case True
  have eq: "schedule_next k = sequential_pass k"
    using True wf by (intro schedule_next_eq) (simp_all add: wf_tables_def)
  let ?k1 = "promotion k"
  let ?k2 = "readiness_recomputed ?k1"
  let ?k3 = "?k2\<lparr>task_queue := tl (task_queue k)\<rparr>"
  have i1: "wf_tables ?k1 \<and> holds_tasks ?k1" using wf h by (rule inv_promotion)
  then have i2: "wf_tables ?k2 \<and> holds_tasks ?k2" by (intro inv_readiness_recomputed) simp_all
  then have i3: "wf_tables ?k3 \<and> holds_tasks ?k3" by (intro inv_same_tables [of ?k3 ?k2]) simp_all
  from sequential_pass_shape [of k] show ?thesis
  proof (elim disjE exE conjE)
    fix task a
    assume "get_task (tasks ?k2) (hd (task_queue k)) = Some task" "state task = READY"
      "find (\<lambda>a. a_state a = IDLE) (agents ?k2) = Some a"
      and sp: "sequential_pass k = bind_task (hd (task_queue k)) (aid a) ?k3"
    then have "wf_tables (bind_task (hd (task_queue k)) (aid a) ?k3)
               \<and> holds_tasks (bind_task (hd (task_queue k)) (aid a) ?k3)"
      using i3 by (intro inv_bind_task [of ?k3 _ task]) simp_all
    then show ?thesis by (simp add: eq sp)
  qed (simp_all add: eq i1 i2 i3)
qed

lemma inv_modify_agent:
  assumes inv: "wf_tables k" "holds_tasks k"
    and f: "\<And>x. aid (f x) = aid x \<and> current_task_id (f x) = current_task_id x
                 \<and> (a_state x \<noteq> IDLE \<longrightarrow> a_state (f x) \<noteq> IDLE)"
    and t': "tasks k' = tasks k" and a': "agents k' = modify_agent a f (agents k)"
  shows "wf_tables k' \<and> holds_tasks k'" "works_on k a t \<Longrightarrow> works_on k' a t"
proof -
  show "wf_tables k' \<and> holds_tasks k'"
    using inv
  proof (rule holds_tasks_update)
    show "tasks k' = map (\<lambda>t. t) (tasks k)" by (simp add: t')
    show "agents k' = map (\<lambda>x. if aid x = a then f x else x) (agents k)"
      by (simp add: a' modify_agent_def)
  qed (simp_all add: f)
  have "get_agent (agents k') a = map_option f (get_agent (agents k) a)"
    unfolding a' by (subst get_agent_modify_if) (simp_all add: f)
  then show "works_on k a t \<Longrightarrow> works_on k' a t"
    by (auto simp: works_on_def f split: option.splits)
qed

lemma inv_call_ollama:
  assumes "wf_tables k" "holds_tasks k"
  shows "wf_tables (call_ollama k a t) \<and> holds_tasks (call_ollama k a t)"
    "works_on k a j \<Longrightarrow> works_on (call_ollama k a t) a j"
  by (rule inv_modify_agent [OF assms, of "agent_record_usage ''tokens'' 100"];
      simp add: call_ollama_fields agent_record_usage_keeps aid_agent_record_usage)+

lemma inv_set_agent_state:
  assumes "wf_tables k" "holds_tasks k" "s \<noteq> IDLE"
  shows "wf_tables (set_agent_state k a s) \<and> holds_tasks (set_agent_state k a s)"
    "works_on k a j \<Longrightarrow> works_on (set_agent_state k a s) a j"
  by (rule inv_modify_agent [OF assms(1,2), of "\<lambda>x. x\<lparr>a_state := s\<rparr>"];
      simp add: set_agent_state_fields assms(3))+

lemma inv_after_tool:
  assumes "wf_tables k" "holds_tasks k"
  shows "wf_tables (after_tool P k a t n x) \<and> holds_tasks (after_tool P k a t n x)"
    "works_on k a j \<Longrightarrow> works_on (after_tool P k a t n x) a j"
proof -
  have tk: "tasks (after_tool P k a t n x) = tasks k" by (simp add: after_tool_def)
  have cf: "aid (charged_agent c y) = aid y \<and> current_task_id (charged_agent c y) = current_task_id y
            \<and> (a_state y \<noteq> IDLE \<longrightarrow> a_state (charged_agent c y) \<noteq> IDLE)" for c y
    by (simp add: charged_agent_def)
  show "wf_tables (after_tool P k a t n x) \<and> holds_tasks (after_tool P k a t n x)"
  proof (cases "dispatched_tool (tool_registry k) True (agents k) a n")
    case None
    then have "agents (after_tool P k a t n x) = agents k"
      by (simp add: after_tool_def execute_tool_state)
    with tk assms show ?thesis by (intro inv_same_tables [of _ k]) simp_all
  next
    case (Some tool)
    then have "agents (after_tool P k a t n x) = modify_agent a (charged_agent (cost tool)) (agents k)"
      by (simp add: after_tool_def execute_tool_state)
    then show ?thesis
      using inv_modify_agent(1) [OF assms cf [of "cost tool"] tk] by blast
  qed
  show "works_on k a j \<Longrightarrow> works_on (after_tool P k a t n x) a j"
  proof (cases "dispatched_tool (tool_registry k) True (agents k) a n")
    case None
    then have "agents (after_tool P k a t n x) = agents k"
      by (simp add: after_tool_def execute_tool_state)
    then show "works_on k a j \<Longrightarrow> works_on (after_tool P k a t n x) a j"
      by (simp add: works_on_def)
  next
    case (Some tool)
    then have "agents (after_tool P k a t n x) = modify_agent a (charged_agent (cost tool)) (agents k)"
      by (simp add: after_tool_def execute_tool_state)
    then show "works_on k a j \<Longrightarrow> works_on (after_tool P k a t n x) a j"
      using inv_modify_agent(2) [OF assms cf [of "cost tool"] tk] by blast
  qed
qed

lemma release_agent_map:
  assumes "distinct (map aid as)"
  shows "release_agent as i
         = map (\<lambda>x. if aid x = i \<and> a_state x \<noteq> IDLE
                     then x\<lparr>a_state := IDLE, current_task_id := None\<rparr> else x) as"
proof (cases "get_agent as i")
  case None
  then have "\<And>x. x \<in> set as \<Longrightarrow> aid x \<noteq> i"
    by (auto simp: get_agent_def find_None_iff)
  then have "map (\<lambda>x. if aid x = i \<and> a_state x \<noteq> IDLE
                     then x\<lparr>a_state := IDLE, current_task_id := None\<rparr> else x) as = map (\<lambda>x. x) as"
    by (intro map_cong) auto
  with None show ?thesis by (simp add: release_agent_def)
next
  case (Some a)
  show ?thesis
  proof (cases "a_state a = IDLE")
    case True
    have "\<And>x. x \<in> set as \<Longrightarrow> aid x = i \<Longrightarrow> x = a"
      using get_agent_unique [OF assms Some] by blast
    with True have "map (\<lambda>x. if aid x = i \<and> a_state x \<noteq> IDLE
                     then x\<lparr>a_state := IDLE, current_task_id := None\<rparr> else x) as = map (\<lambda>x. x) as"
      by (intro map_cong) auto
    with Some True show ?thesis by (simp add: release_agent_def)
  next
    case False
    have "\<And>x. x \<in> set as \<Longrightarrow> aid x = i \<Longrightarrow> x = a"
      using get_agent_unique [OF assms Some] by blast
    with False have "map (\<lambda>x. if aid x = i \<and> a_state x \<noteq> IDLE
                     then x\<lparr>a_state := IDLE, current_task_id := None\<rparr> else x) as
        = map (\<lambda>x. if aid x = i then x\<lparr>a_state := IDLE, current_task_id := None\<rparr> else x) as"
      by (intro map_cong) auto
    with Some False show ?thesis by (simp add: release_agent_def modify_agent_def)
  qed
qed

text \<open>Releasing an agent that no ASSIGNED or RUNNING task is bound to keeps the
  invariant.\<close>

lemma inv_release_agent:
  assumes wf: "wf_tables k" and h: "holds_tasks k"
    and free: "\<And>x. x \<in> set (tasks k) \<Longrightarrow> active x \<Longrightarrow> assigned_agent_id x \<noteq> Some i"
  shows "wf_tables (k\<lparr>agents := release_agent (agents k) i\<rparr>)
         \<and> holds_tasks (k\<lparr>agents := release_agent (agents k) i\<rparr>)"
proof
  let ?H = "\<lambda>x. if aid x = i \<and> a_state x \<noteq> IDLE
                 then x\<lparr>a_state := IDLE, current_task_id := None\<rparr> else x"
  have da: "distinct (map aid (agents k))" using wf by (simp add: wf_tables_def)
  have r: "release_agent (agents k) i = map ?H (agents k)" using da by (rule release_agent_map)
  have m: "map aid (map ?H (agents k)) = map aid (agents k)" by (rule map_key_keep) simp
  show "wf_tables (k\<lparr>agents := release_agent (agents k) i\<rparr>)"
    using wf unfolding wf_tables_def by (simp only: r) (simp add: m del: map_map)
  have look: "agents_get (map ?H (agents k)) j = map_option ?H (agents_get (agents k) j)" for j
    by (rule agents_get_map_mem) simp
  show "holds_tasks (k\<lparr>agents := release_agent (agents k) i\<rparr>)"
    unfolding holds_tasks_def list_all_iff
  proof (intro ballI impI)
    fix u assume um: "u \<in> set (tasks (k\<lparr>agents := release_agent (agents k) i\<rparr>))" and act: "active u"
    then have u: "u \<in> set (tasks k)" by simp
    from h u act obtain b where b: "agents_get (agents k) (assigned_agent_id u) = Some b"
      "a_state b \<noteq> IDLE" "current_task_id b = Some (tid u)"
      by (auto simp: holds_tasks_def list_all_iff split: option.splits)
    from agents_get_SomeD [OF b(1)] free [OF u act] have "aid b \<noteq> i" by auto
    then have "agents_get (map ?H (agents k)) (assigned_agent_id u) = Some b"
      by (simp only: look b(1) option.map) simp
    then show "case agents_get (agents (k\<lparr>agents := release_agent (agents k) i\<rparr>)) (assigned_agent_id u) of
                 None \<Rightarrow> False
               | Some x \<Rightarrow> a_state x \<noteq> IDLE \<and> current_task_id x = Some (tid u)"
      using b by (simp add: r)
  qed
qed

lemma add_result_map:
  "add_result ts t r = map (\<lambda>x. if tid x = t then x\<lparr>result := Some r\<rparr> else x) ts"
proof (cases "get_task ts t")
  case None
  then have "\<And>x. x \<in> set ts \<Longrightarrow> tid x \<noteq> t" by (auto simp: get_task_None)
  then have "map (\<lambda>x. if tid x = t then x\<lparr>result := Some r\<rparr> else x) ts = map (\<lambda>x. x) ts"
    by (intro map_cong) auto
  with None show ?thesis by (simp add: add_result_def)
next
  case (Some task)
  then show ?thesis by (simp add: add_result_def modify_task_def)
qed

text \<open>The task table after a completion, entry by entry.\<close>

lemma complete_task_tasks:
  assumes "distinct (map tid (tasks k))"
  shows "\<exists>ts2. tasks (complete_task k a t r)
           = map (\<lambda>x. promote_ready ts2
                        (if tid x = t then x\<lparr>result := Some r, state := COMPLETED\<rparr> else x))
               (tasks k)"
proof -
  let ?C = "\<lambda>x. if tid x = t then x\<lparr>result := Some r, state := COMPLETED\<rparr> else x"
  let ?A = "\<lambda>x. if tid x = t then x\<lparr>result := Some r\<rparr> else x"
  have ka: "map tid (map ?A (tasks k)) = map tid (tasks k)" by (rule map_key_keep) simp
  have d1: "distinct (map tid (add_result (tasks k) t r))"
    using assms unfolding add_result_map ka .
  have u: "update_task_state (add_result (tasks k) t r) t COMPLETED = map ?C (tasks k)"
    unfolding update_task_state_map [OF d1] by (simp add: add_result_map comp_def if_distrib cong: if_cong)
  have kc: "map tid (map ?C (tasks k)) = map tid (tasks k)" by (rule map_key_keep) simp
  have d2: "distinct (map tid (map ?C (tasks k)))" using assms unfolding kc .
  have "tasks (complete_task k a t r) = map (promote_ready (map ?C (tasks k))) (map ?C (tasks k))"
    by (simp only: complete_task_def u readiness_map [OF d2]) simp
  then have "tasks (complete_task k a t r)
             = map (\<lambda>x. promote_ready (map ?C (tasks k)) (?C x)) (tasks k)"
    by (simp add: comp_def)
  then show ?thesis by blast
qed

lemma inv_complete_task:
  assumes wf: "wf_tables k" and h: "holds_tasks k" and w: "works_on k a t"
  shows "wf_tables (complete_task k a t r) \<and> holds_tasks (complete_task k a t r)"
proof -
  have dt: "distinct (map tid (tasks k))" and da: "distinct (map aid (agents k))"
    using wf by (simp_all add: wf_tables_def)
  from complete_task_tasks [OF dt, of a t r] obtain ts2 where
    ts: "tasks (complete_task k a t r)
         = map (\<lambda>x. promote_ready ts2
                      (if tid x = t then x\<lparr>result := Some r, state := COMPLETED\<rparr> else x)) (tasks k)"
    by blast
  let ?G = "\<lambda>x. promote_ready ts2 (if tid x = t then x\<lparr>result := Some r, state := COMPLETED\<rparr> else x)"
  define k1 where "k1 = k\<lparr>tasks := map ?G (tasks k)\<rparr>"
  have G: "tid (?G x) = tid x
           \<and> (active (?G x) \<longrightarrow> active x \<and> tid x \<noteq> t \<and> assigned_agent_id (?G x) = assigned_agent_id x)"
    for x
    by (auto simp: promote_ready_def active_def becomes_ready_def)
  have i1: "wf_tables k1 \<and> holds_tasks k1"
    using wf h
  proof (rule holds_tasks_update)
    show "tasks k1 = map ?G (tasks k)" by (simp add: k1_def)
    show "agents k1 = map (\<lambda>x. x) (agents k)" by (simp add: k1_def)
  next
    fix x
    show "tid (?G x) = tid x
          \<and> (active (?G x) \<longrightarrow> active x \<and> assigned_agent_id (?G x) = assigned_agent_id x)"
      using G [of x] by blast
  qed simp
  have free: "assigned_agent_id u \<noteq> Some a" if "u \<in> set (tasks k1)" "active u" for u
  proof
    assume ua: "assigned_agent_id u = Some a"
    from that(1) obtain x where x: "x \<in> set (tasks k)" "u = ?G x" by (auto simp: k1_def)
    with that(2) G [of x] have ax: "active x" "tid x \<noteq> t" "assigned_agent_id x = Some a"
      using ua by auto
    from h x(1) ax(1) obtain b where b: "agents_get (agents k) (assigned_agent_id x) = Some b"
      "current_task_id b = Some (tid x)"
      by (auto simp: holds_tasks_def list_all_iff split: option.splits)
    from b(1) ax(3) have "get_agent (agents k) a = Some b" by (simp add: agents_get_def)
    with w have "current_task_id b = Some t" by (simp add: works_on_def)
    with b(2) ax(2) show False by simp
  qed
  have "wf_tables (k1\<lparr>agents := release_agent (agents k1) a\<rparr>)
        \<and> holds_tasks (k1\<lparr>agents := release_agent (agents k1) a\<rparr>)"
    using i1 free by (intro inv_release_agent) auto
  moreover have "complete_task k a t r = k1\<lparr>agents := release_agent (agents k1) a\<rparr>"
    using ts by (simp add: complete_task_def k1_def)
  ultimately show ?thesis by simp
qed

text \<open>The invariant across a work step on a task and the agent it is bound to.\<close>

lemma inv_work_step:
  assumes wf: "wf_tables k" and h: "holds_tasks k"
    and task: "get_task (tasks k) t = Some task" "state task = RUNNING"
    and ag: "agents_get (agents k) (assigned_agent_id task) = Some a"
  shows "wf_tables (fst (simulate_agent_work P k (aid a) (tid task) r1 r2))
         \<and> holds_tasks (fst (simulate_agent_work P k (aid a) (tid task) r1 r2))"
proof -
  let ?Q = "\<lambda>k'. wf_tables k' \<and> holds_tasks k' \<and> works_on k' (aid a) (tid task)"
  let ?R = "\<lambda>k'. wf_tables k' \<and> holds_tasks k'"
  have tm: "task \<in> set (tasks k)" using task(1) by (rule get_task_mem)
  have "active task" using task(2) by (simp add: active_def)
  with h tm ag have "current_task_id a = Some (tid task)"
    by (auto simp: holds_tasks_def list_all_iff)
  moreover from agents_get_SomeD [OF ag] have "get_agent (agents k) (aid a) = Some a" by simp
  ultimately have w: "works_on k (aid a) (tid task)" by (simp add: works_on_def)
  show ?thesis
  proof (rule work_step_rule [where Q = ?Q and R = ?R])
    show "?Q k" using wf h w by simp
  next
    fix k' assume "?Q k'"
    then show "?Q (call_ollama k' (aid a) (tid task))"
      using inv_call_ollama by blast
  next
    fix k' s assume "?Q k'" "s = USING_TOOL \<or> s = RUNNING_TASK"
    then show "?Q (set_agent_state k' (aid a) s)"
      using inv_set_agent_state by blast
  next
    fix k' n x assume "?Q k'"
    then show "?Q (after_tool P k' (aid a) (tid task) n x)"
      using inv_after_tool by blast
  next
    fix k' r assume "?Q k'"
    then show "?R (complete_task k' (aid a) (tid task) r)"
      using inv_complete_task by blast
  next
    fix k' assume "?Q k'"
    then show "?R k'" by simp
  qed
qed

lemma work_loop_rule:
  assumes "I k"
    and step: "\<And>k t task a r1 r2. I k \<Longrightarrow> get_task (tasks k) t = Some task
                 \<Longrightarrow> state task = RUNNING
                 \<Longrightarrow> agents_get (agents k) (assigned_agent_id task) = Some a
                 \<Longrightarrow> a_state a = RUNNING_TASK
                 \<Longrightarrow> I (fst (simulate_agent_work P k (aid a) (tid task) r1 r2))"
  shows "I (fst (work_loop P oracle L k))"
  using assms(1)
proof (induction L arbitrary: k)
  case Nil
  then show ?case by simp
next
  case (Cons t L)
  show ?case
  proof (cases "get_task (tasks k) t")
    case None
    then show ?thesis using Cons by simp
  next
    case (Some task)
    note tk = this
    show ?thesis
    proof (cases "state task = RUNNING")
      case False
      with tk show ?thesis using Cons by simp
    next
      case True
      note run = this
      show ?thesis
      proof (cases "agents_get (agents k) (assigned_agent_id task)")
        case None
        with tk run show ?thesis using Cons by simp
      next
        case (Some a)
        note ag = this
        show ?thesis
        proof (cases "a_state a = RUNNING_TASK")
          case False
          with tk run ag show ?thesis using Cons by simp
        next
          case True
          let ?s = "simulate_agent_work P k (aid a) (tid task) (fst (oracle t)) (snd (oracle t))"
          have I': "I (fst ?s)" using Cons.prems tk run ag True by (rule step)
          obtain k' out where s: "?s = (k', out)" by (cases ?s)
          with I' have Ik': "I k'" by simp
          show ?thesis
          proof (cases out)
            case (Raises e)
            with tk run ag True s Ik' show ?thesis by simp
          next
            case (Returns b)
            with tk run ag True s Cons.IH [OF Ik'] show ?thesis by simp
          qed
        qed
      qed
    qed
  qed
qed

lemma tick_rule:
  assumes "I k"
    and fields: "\<And>k k'. I k \<Longrightarrow> tasks k' = tasks k \<Longrightarrow> agents k' = agents k \<Longrightarrow> I k'"
    and sched: "\<And>k. I k \<Longrightarrow> I (schedule_next k)"
    and step: "\<And>k t task a r1 r2. I k \<Longrightarrow> get_task (tasks k) t = Some task
                 \<Longrightarrow> state task = RUNNING
                 \<Longrightarrow> agents_get (agents k) (assigned_agent_id task) = Some a
                 \<Longrightarrow> a_state a = RUNNING_TASK
                 \<Longrightarrow> I (fst (simulate_agent_work P k (aid a) (tid task) r1 r2))"
  shows "I (fst (tick P oracle k))"
proof (cases "loaded k \<and> running k")
  case False
  then show ?thesis using assms(1) by (auto simp: tick_def)
next
  case True
  let ?k2 = "schedule_next (k\<lparr>tick_count := tick_count k + 1\<rparr>)"
  let ?w = "work_loop P oracle (map tid (filter (\<lambda>t. state t = RUNNING) (tasks ?k2))) ?k2"
  have "I (k\<lparr>tick_count := tick_count k + 1\<rparr>)" using assms(1) by (rule fields) simp_all
  then have "I ?k2" by (rule sched)
  then have Iw: "I (fst ?w)" using step by (rule work_loop_rule)
  obtain k3 out where w: "?w = (k3, out)" by (cases ?w)
  with Iw have I3: "I k3" by simp
  then have "I (k3\<lparr>running := False\<rparr>)" by (rule fields) simp_all
  with I3 w True show ?thesis
    by (cases out) (simp_all add: tick_def Let_def)
qed

lemma put_task_keys:
  "set (map tid (put_task t d)) = insert (tid t) (set (map tid d))"
  "distinct (map tid d) \<Longrightarrow> distinct (map tid (put_task t d))"
  "set (put_task t d) \<subseteq> insert t (set d)"
  by (induction d) (auto simp: image_iff)

lemma put_agent_keys:
  "set (map aid (put_agent a d)) = insert (aid a) (set (map aid d))"
  "distinct (map aid d) \<Longrightarrow> distinct (map aid (put_agent a d))"
  "set (put_agent a d) \<subseteq> insert a (set d)"
  by (induction d) (auto simp: image_iff)

lemma foldl_put_task:
  "distinct (map tid d) \<Longrightarrow> distinct (map tid (foldl (\<lambda>d t. put_task t d) d ts))"
  "set (foldl (\<lambda>d t. put_task t d) d ts) \<subseteq> set d \<union> set ts"
proof (induction ts arbitrary: d)
  case Nil
  { case 1 then show ?case by simp }
  { case 2 then show ?case by simp }
next
  case (Cons t ts)
  { case 1 then show ?case using Cons.IH(1) [of "put_task t d"] put_task_keys(2) by simp }
  { case 2 show ?case using Cons.IH(2) [of "put_task t d"] put_task_keys(3) [of t d] by auto }
qed

lemma foldl_put_agent:
  "distinct (map aid d) \<Longrightarrow> distinct (map aid (foldl (\<lambda>d a. put_agent a d) d as))"
  "set (foldl (\<lambda>d a. put_agent a d) d as) \<subseteq> set d \<union> set as"
proof (induction as arbitrary: d)
  case Nil
  { case 1 then show ?case by simp }
  { case 2 then show ?case by simp }
next
  case (Cons a as)
  { case 1 then show ?case using Cons.IH(1) [of "put_agent a d"] put_agent_keys(2) by simp }
  { case 2 show ?case using Cons.IH(2) [of "put_agent a d"] put_agent_keys(3) [of a d] by auto }
qed

lemma inv_load_crew:
  assumes "list_all fresh_task ts"
  shows "wf_tables (load_crew k0 (Crew_init as ts p)) \<and> holds_tasks (load_crew k0 (Crew_init as ts p))"
proof
  have t: "tasks (load_crew k0 (Crew_init as ts p)) = foldl (\<lambda>d t. put_task t d) [] ts"
    and a: "agents (load_crew k0 (Crew_init as ts p)) = foldl (\<lambda>d a. put_agent a d) [] as"
    by (simp_all add: load_crew_def Crew_init_def)
  show "wf_tables (load_crew k0 (Crew_init as ts p))"
    unfolding wf_tables_def t a using foldl_put_task(1) [of "[]" ts] foldl_put_agent(1) [of "[]" as]
    by simp
  have "\<And>u. u \<in> set (foldl (\<lambda>d t. put_task t d) [] ts) \<Longrightarrow> \<not> active u"
    using foldl_put_task(2) [of "[]" ts] assms
    by (auto simp: list_all_iff fresh_task_def active_def)
  then show "holds_tasks (load_crew k0 (Crew_init as ts p))"
    unfolding holds_tasks_def t list_all_iff by blast
qed

lemma reachable_inv:
  assumes "reachable P k"
  shows "wf_tables k \<and> holds_tasks k"
  using assms
proof (induction rule: reachable.induct)
  case (load as ts k0 p)
  then show ?case by (intro inv_load_crew)
next
  case (flag k b)
  then show ?case by (intro inv_same_tables [of _ k]) simp_all
next
  case (register k reg)
  then show ?case by (intro inv_same_tables [of _ k]) simp_all
next
  case (sched k)
  then show ?case by (intro inv_schedule_next) simp_all
next
  case (work k t task a r1 r2)
  then show ?case by (intro inv_work_step [of k t task]) simp_all
next
  case (release k i a)
  have "assigned_agent_id x \<noteq> Some i" if "x \<in> set (tasks k)" "active x" for x
  proof
    assume "assigned_agent_id x = Some i"
    with release.IH that release.hyps(2) have "current_task_id a = Some (tid x)"
      by (auto simp: holds_tasks_def list_all_iff agents_get_def)
    with release.hyps(3) that show False by (auto simp: list_all_iff)
  qed
  with release.IH show ?case by (intro inv_release_agent) simp_all
next
  case (tick k orc)
  let ?I = "\<lambda>k. wf_tables k \<and> holds_tasks k"
  show ?case
  proof (rule tick_rule [where I = ?I])
    show "?I k" by fact
  next
    fix k k' :: kernel assume "?I k" "tasks k' = tasks k" "agents k' = agents k"
    then show "?I k'" by (intro inv_same_tables [of k' k]) simp_all
  next
    fix k assume "?I k"
    then show "?I (schedule_next k)" by (intro inv_schedule_next) simp_all
  next
    fix k t task a r1 r2
    assume "?I k" "get_task (tasks k) t = Some task" "state task = RUNNING"
      "agents_get (agents k) (assigned_agent_id task) = Some a"
    then show "?I (fst (simulate_agent_work P k (aid a) (tid task) r1 r2))"
      by (intro inv_work_step [of k t task]) simp_all
  qed
qed

text \<open>
  C6. In every state reached from a freshly loaded crew by scheduling passes, work steps as
  \<open>tick\<close> starts them, ticks, and the release of an agent whose current task is neither
  ASSIGNED nor RUNNING (see \<open>reachable\<close>; the work step releases its agent after it has
  set the task COMPLETED), for every agent id at most one task with that
  \<open>assigned_agent_id\<close> is ASSIGNED or RUNNING, the current task of every agent is the id
  of at most one task, and every ASSIGNED or RUNNING task is the current task of the agent
  it is bound to. The restriction on the release is needed: \<open>release_agent\<close> makes an
  agent IDLE whatever the state of its task. From a fresh load of one agent and two tasks
  without dependencies, a scheduling pass binds task 0 to agent 0; when agent 0 is released
  while task 0 is ASSIGNED, the next scheduling pass binds task 1 to agent 0 as well, and two
  ASSIGNED tasks have \<open>assigned_agent_id = 0\<close>.
\<close>

theorem no_double_booking:
  assumes "reachable P k"
  shows "(\<forall>i. length (filter (\<lambda>t. assigned_agent_id t = Some i \<and> active t) (tasks k)) \<le> 1)
       \<and> (\<forall>a \<in> set (agents k).
             length (filter (\<lambda>t. current_task_id a = Some (tid t)) (tasks k)) \<le> 1)
       \<and> holds_tasks k"
proof -
  from reachable_inv [OF assms] have wf: "wf_tables k" and h: "holds_tasks k" by simp_all
  have dt: "distinct (map tid (tasks k))" using wf by (simp add: wf_tables_def)
  have one: "length (filter (\<lambda>t. assigned_agent_id t = Some i \<and> active t) (tasks k)) \<le> 1" for i
  proof (cases "get_agent (agents k) i")
    case None
    have "\<not> (assigned_agent_id t = Some i \<and> active t)" if "t \<in> set (tasks k)" for t
      using h that None by (auto simp: holds_tasks_def list_all_iff agents_get_def)
    then have "filter (\<lambda>t. assigned_agent_id t = Some i \<and> active t) (tasks k) = []"
      by (simp add: filter_empty_conv)
    then show ?thesis by simp
  next
    case (Some b)
    have key: "tid t = (case current_task_id b of None \<Rightarrow> 0 | Some j \<Rightarrow> j)"
      if "t \<in> set (tasks k)" "assigned_agent_id t = Some i \<and> active t" for t
      using h that Some by (auto simp: holds_tasks_def list_all_iff agents_get_def)
    have "filter (\<lambda>t. assigned_agent_id t = Some i \<and> active t) (tasks k)
          = filter (\<lambda>t. (assigned_agent_id t = Some i \<and> active t)
                         \<and> tid t = (case current_task_id b of None \<Rightarrow> 0 | Some j \<Rightarrow> j)) (tasks k)"
      by (rule filter_cong [OF refl]) (use key in blast)
    moreover have "length (filter (\<lambda>t. (assigned_agent_id t = Some i \<and> active t)
                         \<and> tid t = (case current_task_id b of None \<Rightarrow> 0 | Some j \<Rightarrow> j)) (tasks k)) \<le> 1"
      using dt by (rule filter_key_le_one) simp
    ultimately show ?thesis by simp
  qed
  have cur: "length (filter (\<lambda>t. current_task_id a = Some (tid t)) (tasks k)) \<le> 1" for a
    using dt
  proof (rule filter_key_le_one)
    fix t assume "current_task_id a = Some (tid t)"
    then show "tid t = (case current_task_id a of None \<Rightarrow> 0 | Some j \<Rightarrow> j)" by simp
  qed
  show ?thesis using one cur h by blast
qed

theorem no_double_booking_witness:
  "reachable ex_python (schedule_next ex_kernel)
   \<and> map state (tasks (schedule_next ex_kernel)) = [ASSIGNED, PENDING]
   \<and> map assigned_agent_id (tasks (schedule_next ex_kernel)) = [Some 0, None]
   \<and> map current_task_id (agents (schedule_next ex_kernel)) = [Some 0]
   \<and> length (filter (\<lambda>t. assigned_agent_id t = Some 0 \<and> active t) (tasks (schedule_next ex_kernel))) \<le> 1
   \<and> holds_tasks (schedule_next ex_kernel)"
proof -
  have "reachable ex_python ex_kernel"
    unfolding ex_kernel_def
    by (rule reachable.load)
       (simp_all add: fresh_agent_def fresh_task_def ex_agent_def Agent_init_def ex_fresh_def
          Task_init_def)
  then have r: "reachable ex_python (schedule_next ex_kernel)" by (rule reachable.sched)
  have ts: "tasks ex_kernel = ex_fresh" and as: "agents ex_kernel = [ex_agent 0 [''calculator'']]"
    and q: "task_queue ex_kernel = [0, 1]" and p: "process ex_kernel = SEQUENTIAL"
    by (simp_all add: ex_kernel_def load_crew_def Crew_init_def ex_fresh_def Task_init_def)
  have dt: "distinct (map tid (tasks ex_kernel))" by (simp add: ts ex_fresh_def Task_init_def)
  have da: "distinct (map aid (agents ex_kernel))" by (simp add: as)
  have pr: "promotion ex_kernel = ex_kernel"
    by (simp add: promotion_def ts as promote_task_def promote_agent_def promotable_def
          ex_fresh_def Task_init_def)
  have rr: "tasks (readiness_recomputed ex_kernel)
            = [(Task_init 0 ''first'' ''out'' None None)\<lparr>state := READY\<rparr>,
               Task_init 1 ''second'' ''out'' None (Some [0])]"
    by (simp add: readiness_recomputed_def ts ex_fresh_def promote_ready_def becomes_ready_def
          dep_completed_def get_task_def Task_init_def)
  have sp: "sequential_pass ex_kernel
            = bind_task 0 0 ((readiness_recomputed ex_kernel)\<lparr>task_queue := [1]\<rparr>)"
    by (simp add: sequential_pass_def Let_def pr q rr get_task_def Task_init_def)
       (simp add: readiness_recomputed_def as ex_agent_def Agent_init_def)
  have eq: "schedule_next ex_kernel = sequential_pass ex_kernel"
    using p dt da by (rule schedule_next_eq)
  have res: "map state (tasks (schedule_next ex_kernel)) = [ASSIGNED, PENDING]"
    "map assigned_agent_id (tasks (schedule_next ex_kernel)) = [Some 0, None]"
    "map current_task_id (agents (schedule_next ex_kernel)) = [Some 0]"
    by (simp_all add: eq sp bind_task_def rr Task_init_def)
       (simp_all add: readiness_recomputed_def as ex_agent_def Agent_init_def)
  from no_double_booking [OF r] r res show ?thesis by blast
qed

lemma ex_kernel_two_pass:
  "schedule_next ex_kernel_two
   = ex_kernel_two\<lparr> agents := [(ex_agent 0 [])\<lparr>current_task_id := Some 0, a_state := AGENT_ASSIGNED\<rparr>],
        tasks := [(Task_init 0 ''first'' ''out'' None None)\<lparr>assigned_agent_id := Some 0, state := ASSIGNED\<rparr>,
                  (Task_init 1 ''second'' ''out'' None None)\<lparr>state := READY\<rparr>],
        task_queue := [1] \<rparr>"
  by (simp add: ex_kernel_two_def schedule_next_def load_crew_def Kernel_init_def Crew_init_def
        Task_init_def ex_agent_def Agent_init_def Let_def
        check_and_update_task_readiness_def update_task_state_def get_task_def get_agent_def
        modify_task_def modify_agent_def get_available_agents_def assign_task_to_agent_def
        assign_task_def)


lemma ex_kernel_released_pass:
  "schedule_next ex_kernel_released
   = ex_kernel_two\<lparr> agents := [(ex_agent 0 [])\<lparr>current_task_id := Some 1, a_state := AGENT_ASSIGNED\<rparr>],
        tasks := [(Task_init 0 ''first'' ''out'' None None)\<lparr>assigned_agent_id := Some 0, state := ASSIGNED\<rparr>,
                  (Task_init 1 ''second'' ''out'' None None)\<lparr>assigned_agent_id := Some 0, state := ASSIGNED\<rparr>],
        task_queue := [] \<rparr>"
  unfolding ex_kernel_released_def ex_kernel_two_pass
  by (simp add: ex_kernel_two_def schedule_next_def load_crew_def Kernel_init_def Crew_init_def
        Task_init_def ex_agent_def Agent_init_def Let_def release_agent_def
        check_and_update_task_readiness_def update_task_state_def get_task_def get_agent_def
        modify_task_def modify_agent_def get_available_agents_def assign_task_to_agent_def
        assign_task_def agents_get_def)

theorem no_double_booking_counterexample:
  "ex_kernel_released
     = (schedule_next ex_kernel_two)\<lparr>agents := release_agent (agents (schedule_next ex_kernel_two)) 0\<rparr>
   \<and> map state (tasks (schedule_next ex_kernel_two)) = [ASSIGNED, READY]
   \<and> map a_state (agents ex_kernel_released) = [IDLE]
   \<and> map state (tasks (schedule_next ex_kernel_released)) = [ASSIGNED, ASSIGNED]
   \<and> map assigned_agent_id (tasks (schedule_next ex_kernel_released)) = [Some 0, Some 0]
   \<and> length (filter (\<lambda>t. assigned_agent_id t = Some 0 \<and> active t)
               (tasks (schedule_next ex_kernel_released))) = 2"
proof -
  have d: "ex_kernel_released
     = (schedule_next ex_kernel_two)\<lparr>agents := release_agent (agents (schedule_next ex_kernel_two)) 0\<rparr>"
    by (rule ex_kernel_released_def)
  have a: "map a_state (agents ex_kernel_released) = [IDLE]"
    unfolding ex_kernel_released_def ex_kernel_two_pass
    by (simp add: release_agent_def get_agent_def modify_agent_def ex_agent_def Agent_init_def)
  have b: "map state (tasks (schedule_next ex_kernel_two)) = [ASSIGNED, READY]"
    by (simp add: ex_kernel_two_pass)
  have c: "map state (tasks (schedule_next ex_kernel_released)) = [ASSIGNED, ASSIGNED]"
    "map assigned_agent_id (tasks (schedule_next ex_kernel_released)) = [Some 0, Some 0]"
    "length (filter (\<lambda>t. assigned_agent_id t = Some 0 \<and> active t)
               (tasks (schedule_next ex_kernel_released))) = 2"
    by (simp_all add: ex_kernel_released_pass active_def)
  from d a b c show ?thesis by blast
qed

lemma waiting_update:
  assumes wf: "wf_tables k" and c: "past_waiting k j"
    and t': "tasks k' = map G (tasks k)" and a': "map aid (agents k') = map aid (agents k)"
    and G: "\<And>x. x \<in> set (tasks k) \<Longrightarrow> tid (G x) = tid x \<and> (\<not> waiting (state x) \<longrightarrow> \<not> waiting (state (G x)))"
  shows "wf_tables k' \<and> past_waiting k' j"
proof
  have m: "map tid (map G (tasks k)) = map tid (tasks k)" by (rule map_key_keep) (simp add: G)
  show "wf_tables k'" using wf unfolding wf_tables_def t' a' m .
  from c obtain task where task: "get_task (tasks k) j = Some task" "\<not> waiting (state task)"
    by (auto simp: past_waiting_def split: option.splits)
  have "task \<in> set (tasks k)" using task(1) by (rule get_task_mem)
  with G task(2) have "\<not> waiting (state (G task))" by blast
  moreover have "get_task (map G (tasks k)) j = map_option G (get_task (tasks k) j)"
    by (rule get_task_map_mem) (simp add: G)
  ultimately show "past_waiting k' j" by (simp add: past_waiting_def t' task(1))
qed

lemma waiting_same:
  assumes "wf_tables k" "past_waiting k j" "tasks k' = tasks k" "map aid (agents k') = map aid (agents k)"
  shows "wf_tables k' \<and> past_waiting k' j"
  using assms by (simp add: wf_tables_def past_waiting_def)

lemma waiting_readiness:
  assumes "wf_tables k" "past_waiting k j"
  shows "wf_tables (k\<lparr>tasks := check_and_update_task_readiness (tasks k)\<rparr>)
         \<and> past_waiting (k\<lparr>tasks := check_and_update_task_readiness (tasks k)\<rparr>) j"
  using assms
proof (rule waiting_update)
  have "distinct (map tid (tasks k))" using assms(1) by (simp add: wf_tables_def)
  then show "tasks (k\<lparr>tasks := check_and_update_task_readiness (tasks k)\<rparr>)
             = map (promote_ready (tasks k)) (tasks k)"
    by (simp add: readiness_map)
qed (simp_all add: promote_ready_def becomes_ready_def waiting_def)

lemma waiting_schedule_next:
  assumes wf: "wf_tables k" and c: "past_waiting k j"
  shows "wf_tables (schedule_next k) \<and> past_waiting (schedule_next k) j"
proof (cases "process k = SEQUENTIAL")
  case False
  then show ?thesis using assms by (simp add: schedule_next_def)
next
  case True
  have eq: "schedule_next k = sequential_pass k"
    using True wf by (intro schedule_next_eq) (simp_all add: wf_tables_def)
  let ?k1 = "promotion k"
  let ?k2 = "readiness_recomputed ?k1"
  let ?k3 = "?k2\<lparr>task_queue := tl (task_queue k)\<rparr>"
  have i1: "wf_tables ?k1 \<and> past_waiting ?k1 j"
    using wf c
  proof (rule waiting_update)
    show "tasks ?k1 = map (promote_task (agents k) (tasks k)) (tasks k)" by (simp add: promotion_def)
    show "map aid (agents ?k1) = map aid (agents k)" by (rule promotion_keys)
  qed (auto simp: promote_task_def promotable_def waiting_def)
  have i2: "wf_tables ?k2 \<and> past_waiting ?k2 j"
  proof (rule waiting_update [of ?k1 j])
    show "tasks ?k2 = map (promote_ready (tasks ?k1)) (tasks ?k1)"
      by (simp add: readiness_recomputed_def)
    show "map aid (agents ?k2) = map aid (agents ?k1)" by (simp add: readiness_recomputed_def)
  qed (simp_all add: i1 promote_ready_def becomes_ready_def waiting_def)
  have i3: "wf_tables ?k3 \<and> past_waiting ?k3 j"
    using i2 by (intro waiting_same [of ?k2]) simp_all
  from sequential_pass_shape [of k] show ?thesis
  proof (elim disjE exE conjE)
    fix task a
    assume hd: "get_task (tasks ?k2) (hd (task_queue k)) = Some task" "state task = READY"
      and sp: "sequential_pass k = bind_task (hd (task_queue k)) (aid a) ?k3"
    let ?h = "hd (task_queue k)"
    let ?B = "\<lambda>t. if tid t = ?h then t\<lparr>assigned_agent_id := Some (aid a), state := ASSIGNED\<rparr> else t"
    have d3: "distinct (map tid (tasks ?k3))" using i3 by (simp add: wf_tables_def)
    have hd3: "get_task (tasks ?k3) ?h = Some task" using hd(1) by simp
    have "wf_tables (bind_task ?h (aid a) ?k3) \<and> past_waiting (bind_task ?h (aid a) ?k3) j"
    proof (rule waiting_update [of ?k3 j])
      show "tasks (bind_task ?h (aid a) ?k3) = map ?B (tasks ?k3)" by (simp add: bind_task_def)
      show "map aid (agents (bind_task ?h (aid a) ?k3)) = map aid (agents ?k3)"
        unfolding bind_task_def by (simp del: map_map) (rule map_key_keep, simp)
      fix x assume x: "x \<in> set (tasks ?k3)"
      show "tid (?B x) = tid x \<and> (\<not> waiting (state x) \<longrightarrow> \<not> waiting (state (?B x)))"
        by (simp add: waiting_def)
    qed (simp_all add: i3)
    then show ?thesis by (simp add: eq sp)
  qed (simp_all add: eq i1 i2 i3)
qed

lemma aid_modify_agent:
  assumes "\<And>x. aid (f x) = aid x"
  shows "map aid (modify_agent a f as) = map aid as"
  unfolding modify_agent_def by (rule map_key_keep) (simp add: assms)

lemma aid_release_agent: "map aid (release_agent as i) = map aid as"
  by (simp add: release_agent_def aid_modify_agent split: option.splits del: map_map)

lemma aid_after_tool: "map aid (agents (after_tool P k a t n x)) = map aid (agents k)"
  by (cases "dispatched_tool (tool_registry k) True (agents k) a n")
     (simp_all add: after_tool_def execute_tool_state aid_modify_agent charged_agent_def del: map_map)

lemma waiting_work_step:
  assumes wf: "wf_tables k" and c: "past_waiting k j"
  shows "wf_tables (fst (simulate_agent_work P k a t r1 r2))
         \<and> past_waiting (fst (simulate_agent_work P k a t r1 r2)) j"
proof -
  let ?J = "\<lambda>k'. wf_tables k' \<and> past_waiting k' j"
  show ?thesis
  proof (rule work_step_rule [where Q = ?J and R = ?J])
    show "?J k" using wf c by simp
  next
    fix k' assume "?J k'"
    then show "?J (call_ollama k' a t)"
      by (intro waiting_same [of k'])
         (simp_all add: call_ollama_fields aid_modify_agent aid_agent_record_usage del: map_map)
  next
    fix k' s assume "?J k'"
    then show "?J (set_agent_state k' a s)"
      by (intro waiting_same [of k'])
         (simp_all add: set_agent_state_fields aid_modify_agent del: map_map)
  next
    fix k' n x assume "?J k'"
    then show "?J (after_tool P k' a t n x)"
      by (intro waiting_same [of k']) (simp_all add: aid_after_tool, simp add: after_tool_def)
  next
    fix k' r assume J: "?J k'"
    then have d: "distinct (map tid (tasks k'))" by (simp add: wf_tables_def)
    from complete_task_tasks [OF d, of a t r] obtain ts2 where
      ts: "tasks (complete_task k' a t r)
           = map (\<lambda>x. promote_ready ts2
                        (if tid x = t then x\<lparr>result := Some r, state := COMPLETED\<rparr> else x)) (tasks k')"
      by blast
    show "?J (complete_task k' a t r)"
    proof (rule waiting_update [of k' j])
      show "tasks (complete_task k' a t r)
           = map (\<lambda>x. promote_ready ts2
                        (if tid x = t then x\<lparr>result := Some r, state := COMPLETED\<rparr> else x)) (tasks k')"
        by (rule ts)
      show "map aid (agents (complete_task k' a t r)) = map aid (agents k')"
        by (simp add: complete_task_def aid_release_agent del: map_map)
    qed (simp_all add: J promote_ready_def becomes_ready_def waiting_def)
  qed
qed

lemma waiting_core_step:
  assumes "core_step P k k'" "wf_tables k" "past_waiting k j"
  shows "wf_tables k' \<and> past_waiting k' j"
  using assms
proof (induction rule: core_step.induct)
  case (readiness k)
  then show ?case by (intro waiting_readiness)
next
  case (sched k)
  then show ?case by (intro waiting_schedule_next)
next
  case (work k a t r1 r2)
  then show ?case by (intro waiting_work_step)
next
  case (update s k t)
  have d: "distinct (map tid (tasks k))" using update.prems(1) by (simp add: wf_tables_def)
  show ?case
    using update.prems
  proof (rule waiting_update)
    show "tasks (k\<lparr>tasks := update_task_state (tasks k) t s\<rparr>)
          = map (\<lambda>x. if tid x = t then x\<lparr>state := s\<rparr> else x) (tasks k)"
      by (simp add: update_task_state_map [OF d])
    show "map aid (agents (k\<lparr>tasks := update_task_state (tasks k) t s\<rparr>)) = map aid (agents k)"
      by simp
    fix x assume x: "x \<in> set (tasks k)"
    show "tid (if tid x = t then x\<lparr>state := s\<rparr> else x) = tid x
          \<and> (\<not> waiting (state x)
               \<longrightarrow> \<not> waiting (state (if tid x = t then x\<lparr>state := s\<rparr> else x)))"
      using update.hyps by (simp add: waiting_def)
  qed
next
  case (tick k orc)
  let ?J = "\<lambda>k'. wf_tables k' \<and> past_waiting k' j"
  show ?case
  proof (rule tick_rule [where I = ?J])
    show "?J k" using tick by simp
  next
    fix k k' :: kernel assume "?J k" "tasks k' = tasks k" "agents k' = agents k"
    then show "?J k'" by (intro waiting_same [of k]) simp_all
  next
    fix k assume "?J k"
    then show "?J (schedule_next k)" by (intro waiting_schedule_next) simp_all
  next
    fix k t task a r1 r2 assume "?J k"
    then show "?J (fst (simulate_agent_work P k (aid a) (tid task) r1 r2))"
      by (intro waiting_work_step) simp_all
  qed
next
  case (flag k b)
  then show ?case by (intro waiting_same [of k]) simp_all
next
  case (register k reg)
  then show ?case by (intro waiting_same [of k]) simp_all
qed

lemma waiting_run:
  assumes "run P k k'" "wf_tables k" "past_waiting k j"
  shows "wf_tables k' \<and> past_waiting k' j"
  using assms
proof (induction rule: run.induct)
  case (start k)
  then show ?case by simp
next
  case (step k k' k'')
  then show ?case using waiting_core_step by blast
qed

text \<open>
  C7. Along a run (any sequence of the operations of \<open>core_step\<close>: readiness passes,
  scheduling passes, work steps, ticks, and state updates that ask for a state other than
  PENDING and READY; \<open>reset_states\<close> is left out), a task that is COMPLETED is never PENDING
  or READY again. The restriction on the state update is needed: \<open>update_task_state\<close> sets
  whatever state it is given, so an update of a COMPLETED task to PENDING or to READY moves
  the task back.
\<close>

theorem completed_is_stable:
  assumes "run P k k'"
    and "distinct (map tid (tasks k))" "distinct (map aid (agents k))"
    and "get_task (tasks k) j = Some task" "state task = COMPLETED"
  shows "\<exists>task'. get_task (tasks k') j = Some task'
                 \<and> state task' \<noteq> PENDING \<and> state task' \<noteq> READY"
proof -
  have "wf_tables k" "past_waiting k j"
    using assms(2-5) by (simp_all add: wf_tables_def past_waiting_def waiting_def)
  with assms(1) have "past_waiting k' j" using waiting_run by blast
  then show ?thesis by (auto simp: past_waiting_def waiting_def split: option.splits)
qed

theorem completed_is_stable_witness:
  "run ex_python ex_kernel_done
       (fst (tick ex_python (\<lambda>t. (None, None)) (schedule_next (ex_kernel_updated FAILED))))
   \<and> distinct (map tid (tasks ex_kernel_done)) \<and> distinct (map aid (agents ex_kernel_done))
   \<and> map state (tasks ex_kernel_done) = [COMPLETED, PENDING]
   \<and> map state (tasks (ex_kernel_updated FAILED)) = [FAILED, PENDING]
   \<and> map_option state
        (get_task (tasks (fst (tick ex_python (\<lambda>t. (None, None))
                                  (schedule_next (ex_kernel_updated FAILED))))) 0)
       \<notin> {None, Some PENDING, Some READY}"
proof -
  let ?k' = "fst (tick ex_python (\<lambda>t. (None, None)) (schedule_next (ex_kernel_updated FAILED)))"
  have "run ex_python ex_kernel_done (ex_kernel_updated FAILED)"
    unfolding ex_kernel_updated_def by (rule run.step [OF run.start core_step.update]) simp_all
  then have "run ex_python ex_kernel_done (schedule_next (ex_kernel_updated FAILED))"
    by (rule run.step) (rule core_step.sched)
  then have r: "run ex_python ex_kernel_done ?k'"
    by (rule run.step) (rule core_step.tick)
  have dt: "distinct (map tid (tasks ex_kernel_done))"
    by (simp add: ex_kernel_done_def ex_task_def Task_init_def)
  have da: "distinct (map aid (agents ex_kernel_done))"
    by (simp add: ex_kernel_done_def ex_kernel_def load_crew_def Crew_init_def)
  have g: "get_task (tasks ex_kernel_done) 0 = Some (ex_task 0 [] COMPLETED (Some ''a''))"
    by (simp add: ex_kernel_done_def get_task_def ex_task_def Task_init_def)
  have s: "state (ex_task 0 [] COMPLETED (Some ''a'')) = COMPLETED" by (simp add: ex_task_def)
  have m: "map state (tasks ex_kernel_done) = [COMPLETED, PENDING]"
    "map state (tasks (ex_kernel_updated FAILED)) = [FAILED, PENDING]"
    by (simp_all add: ex_kernel_updated_def ex_kernel_done_def ex_task_def Task_init_def
          update_task_state_def get_task_def modify_task_def)
  from completed_is_stable [OF r dt da g s]
  have "map_option state (get_task (tasks ?k') 0) \<notin> {None, Some PENDING, Some READY}" by auto
  with r dt da m show ?thesis by blast
qed

theorem completed_is_stable_counterexample:
  "map state (tasks ex_kernel_done) = [COMPLETED, PENDING]
   \<and> map state (tasks (ex_kernel_updated PENDING)) = [PENDING, PENDING]
   \<and> map state (tasks (ex_kernel_updated READY)) = [READY, PENDING]
   \<and> map_option state (get_task (tasks (ex_kernel_updated PENDING)) 0) = Some PENDING"
  by (simp add: ex_kernel_updated_def ex_kernel_done_def ex_task_def Task_init_def
        update_task_state_def get_task_def modify_task_def)

end
